theory Spec2Isabelle
  imports Main "HOL-Library.Sublist"
begin

section \<open>Directory synchronisation (src/src/copy.ts)\<close>

text \<open>
  The module keeps one process-wide variable, \<open>rsyncAvailable\<close>, and reaches the outside
  world only through the file-system module (\<open>fs\<close>), the path module (\<open>path\<close>), the shell
  (\<open>$\<close>) and the two logging sinks. The embedding passes the process state explicitly:
  the cached flag, the outside world, and the trace of every call the module makes to
  the outside, in order. What the outside world does is supplied by a \<open>platform\<close>, so
  every statement about the control flow of the module holds for every behaviour of the
  file system, of the shell and of the external tool.
\<close>

subsection \<open>Values exchanged with the platform\<close>

text \<open>
  A thrown value is an instance of \<open>Error\<close> carrying its message, or any other value,
  carried as what \<open>String(err)\<close> renders.
\<close>

datatype js_error = JsError string | JsValue string

text \<open>Line 120: \<^verbatim>\<open>err instanceof Error ? err.message : String(err)\<close>.\<close>

definition errorMessage :: "js_error \<Rightarrow> string" where
  "errorMessage err = (case err of JsError m \<Rightarrow> m | JsValue v \<Rightarrow> v)"

text \<open>What \<open>fs.statSync\<close> and \<open>fs.lstatSync\<close> return, as far as the module looks at it.\<close>

datatype stats = StatsFile | StatsDirectory | StatsSymbolicLink | StatsOther

definition isDirectory :: "stats \<Rightarrow> bool" where
  "isDirectory st = (st = StatsDirectory)"

definition isFile :: "stats \<Rightarrow> bool" where
  "isFile st = (st = StatsFile)"

definition isSymbolicLink :: "stats \<Rightarrow> bool" where
  "isSymbolicLink st = (st = StatsSymbolicLink)"

text \<open>The result of a finished shell command.\<close>

record shell_output =
  exitCode :: int
  stderr :: string

text \<open>\<open>SyncDirectoryResult\<close>, lines 74-76: \<^verbatim>\<open>method: "rsync" | "fs"\<close>.\<close>

datatype sync_method = Rsync | Fs

record SyncDirectoryResult =
  method' :: sync_method

text \<open>One entry of the trace for each call that leaves the module.\<close>

datatype event =
    EvStatSync string
  | EvExistsSync string
  | EvLstatSync string
  | EvUnlinkSync string
  | EvRmSync string
  | EvMkdirSync string
  | EvCpSync string string
  | EvWhichRsync
  | EvRsync string string
  | EvLogDebug string
  | EvLogError string

text \<open>
  The platform: what each outside call does to a world of type \<open>'w\<close>. A call that
  can throw returns \<open>Inl\<close> of the thrown value. \<open>statSync\<close>, \<open>existsSync\<close>,
  \<open>lstatSync\<close>, the path functions and the probe \<^verbatim>\<open>which rsync\<close> only read the world;
  the others return the world they leave, also when they throw. \<open>rmSync\<close> stands for
  the call with \<^verbatim>\<open>{ recursive: true, force: true }\<close>, \<open>mkdirSync\<close> and \<open>cpSync\<close> for the
  calls with \<^verbatim>\<open>{ recursive: true }\<close>, \<open>sh_rsync a b\<close> for
  \<^verbatim>\<open>rsync -a --delete a b\<close>, as the module calls them. \<open>path_sep\<close> is one character
  (\<open>/\<close> or \<open>\\<close>).
\<close>

record 'w platform =
  statSync :: "'w \<Rightarrow> string \<Rightarrow> js_error + stats"
  existsSync :: "'w \<Rightarrow> string \<Rightarrow> bool"
  lstatSync :: "'w \<Rightarrow> string \<Rightarrow> js_error + stats"
  unlinkSync :: "'w \<Rightarrow> string \<Rightarrow> 'w \<times> (js_error + unit)"
  rmSync :: "'w \<Rightarrow> string \<Rightarrow> 'w \<times> (js_error + unit)"
  mkdirSync :: "'w \<Rightarrow> string \<Rightarrow> 'w \<times> (js_error + unit)"
  cpSync :: "'w \<Rightarrow> string \<Rightarrow> string \<Rightarrow> 'w \<times> (js_error + unit)"
  path_resolve :: "'w \<Rightarrow> string \<Rightarrow> string"
  path_dirname :: "string \<Rightarrow> string"
  path_sep :: char
  sh_which_rsync :: "'w \<Rightarrow> js_error + shell_output"
  sh_rsync :: "'w \<Rightarrow> string \<Rightarrow> string \<Rightarrow> 'w \<times> (js_error + shell_output)"

text \<open>The process state: line 7, \<^verbatim>\<open>let rsyncAvailable: boolean | null = null\<close>, the world
  and the trace.\<close>

record 'w state =
  rsyncAvailable :: "bool option"
  world :: 'w
  trace :: "event list"

subsection \<open>Calls to the platform\<close>

definition record_event :: "event \<Rightarrow> 'w state \<Rightarrow> 'w state" where
  "record_event ev s = s\<lparr>trace := trace s @ [ev]\<rparr>"

definition fs_statSync :: "'w platform \<Rightarrow> string \<Rightarrow> 'w state \<Rightarrow> 'w state \<times> (js_error + stats)" where
  "fs_statSync P p s = (record_event (EvStatSync p) s, statSync P (world s) p)"

definition fs_existsSync :: "'w platform \<Rightarrow> string \<Rightarrow> 'w state \<Rightarrow> 'w state \<times> bool" where
  "fs_existsSync P p s = (record_event (EvExistsSync p) s, existsSync P (world s) p)"

definition fs_lstatSync :: "'w platform \<Rightarrow> string \<Rightarrow> 'w state \<Rightarrow> 'w state \<times> (js_error + stats)" where
  "fs_lstatSync P p s = (record_event (EvLstatSync p) s, lstatSync P (world s) p)"

definition fs_unlinkSync :: "'w platform \<Rightarrow> string \<Rightarrow> 'w state \<Rightarrow> 'w state \<times> (js_error + unit)" where
  "fs_unlinkSync P p s =
     (case unlinkSync P (world s) p of
        (w', r) \<Rightarrow> ((record_event (EvUnlinkSync p) s)\<lparr>world := w'\<rparr>, r))"

definition fs_rmSync :: "'w platform \<Rightarrow> string \<Rightarrow> 'w state \<Rightarrow> 'w state \<times> (js_error + unit)" where
  "fs_rmSync P p s =
     (case rmSync P (world s) p of
        (w', r) \<Rightarrow> ((record_event (EvRmSync p) s)\<lparr>world := w'\<rparr>, r))"

definition fs_mkdirSync :: "'w platform \<Rightarrow> string \<Rightarrow> 'w state \<Rightarrow> 'w state \<times> (js_error + unit)" where
  "fs_mkdirSync P p s =
     (case mkdirSync P (world s) p of
        (w', r) \<Rightarrow> ((record_event (EvMkdirSync p) s)\<lparr>world := w'\<rparr>, r))"

definition fs_cpSync :: "'w platform \<Rightarrow> string \<Rightarrow> string \<Rightarrow> 'w state \<Rightarrow> 'w state \<times> (js_error + unit)" where
  "fs_cpSync P src dst s =
     (case cpSync P (world s) src dst of
        (w', r) \<Rightarrow> ((record_event (EvCpSync src dst) s)\<lparr>world := w'\<rparr>, r))"

definition shell_which_rsync :: "'w platform \<Rightarrow> 'w state \<Rightarrow> 'w state \<times> (js_error + shell_output)" where
  "shell_which_rsync P s = (record_event EvWhichRsync s, sh_which_rsync P (world s))"

definition shell_rsync ::
  "'w platform \<Rightarrow> string \<Rightarrow> string \<Rightarrow> 'w state \<Rightarrow> 'w state \<times> (js_error + shell_output)" where
  "shell_rsync P a b s =
     (case sh_rsync P (world s) a b of
        (w', r) \<Rightarrow> ((record_event (EvRsync a b) s)\<lparr>world := w'\<rparr>, r))"

text \<open>
  Modelled from the spec: the logging module (\<^verbatim>\<open>./logging\<close>, imported on line 4) is not
  among the sources. The spec describes \<open>logDebug\<close> and \<open>logError\<close> as two sinks that
  are called with a human-readable string, fire and forget, no return value consumed:
  each call is recorded in the trace and does nothing else.
\<close>

definition logDebug :: "string \<Rightarrow> 'w state \<Rightarrow> 'w state" where
  "logDebug msg s = record_event (EvLogDebug msg) s"

definition logError :: "string \<Rightarrow> 'w state \<Rightarrow> 'w state" where
  "logError msg s = record_event (EvLogError msg) s"

subsection \<open>The module\<close>

text \<open>
  \<open>detectRsync\<close>, lines 13-26. The shell call either throws or finishes with an exit
  code; the \<^verbatim>\<open>catch\<close> turns a throw into \<open>false\<close>.
\<close>

definition detectRsync :: "'w platform \<Rightarrow> 'w state \<Rightarrow> 'w state \<times> bool" where
  "detectRsync P s =
     (case rsyncAvailable s of
        Some cached \<Rightarrow> (s, cached)
      | None \<Rightarrow>
          (case shell_which_rsync P s of
             (s1, Inr result) \<Rightarrow>
               (s1\<lparr>rsyncAvailable := Some (exitCode result = 0)\<rparr>, exitCode result = 0)
           | (s1, Inl err) \<Rightarrow>
               (s1\<lparr>rsyncAvailable := Some False\<rparr>, False)))"

text \<open>\<open>copyWithRsync\<close>, lines 35-46.\<close>

definition copyWithRsync ::
  "'w platform \<Rightarrow> string \<Rightarrow> string \<Rightarrow> 'w state \<Rightarrow> 'w state \<times> (js_error + unit)" where
  "copyWithRsync P source target s =
     (case fs_mkdirSync P (path_dirname P target) s of
        (s1, Inl err) \<Rightarrow> (s1, Inl err)
      | (s1, Inr _) \<Rightarrow>
          (case shell_rsync P (source @ ''/'') (target @ ''/'') s1 of
             (s2, Inl err) \<Rightarrow> (s2, Inl err)
           | (s2, Inr result) \<Rightarrow>
               if exitCode result \<noteq> 0
               then (s2, Inl (JsError (''rsync failed: '' @ stderr result)))
               else (s2, Inr ())))"

text \<open>
  The block that removes the target, written twice in the source: lines 57-64 in
  \<open>copyWithNodeFs\<close> and lines 133-140 in the cleanup of \<open>syncDirectory\<close>.
\<close>

definition removeTarget :: "'w platform \<Rightarrow> string \<Rightarrow> 'w state \<Rightarrow> 'w state \<times> (js_error + unit)" where
  "removeTarget P target s =
     (case fs_existsSync P target s of
        (s1, False) \<Rightarrow> (s1, Inr ())
      | (s1, True) \<Rightarrow>
          (case fs_lstatSync P target s1 of
             (s2, Inl err) \<Rightarrow> (s2, Inl err)
           | (s2, Inr stat) \<Rightarrow>
               if isSymbolicLink stat \<or> isFile stat
               then fs_unlinkSync P target s2
               else fs_rmSync P target s2))"

text \<open>\<open>copyWithNodeFs\<close>, lines 55-71.\<close>

definition copyWithNodeFs ::
  "'w platform \<Rightarrow> string \<Rightarrow> string \<Rightarrow> 'w state \<Rightarrow> 'w state \<times> (js_error + unit)" where
  "copyWithNodeFs P source target s =
     (case removeTarget P target s of
        (s1, Inl err) \<Rightarrow> (s1, Inl err)
      | (s1, Inr _) \<Rightarrow>
          (case fs_mkdirSync P (path_dirname P target) s1 of
             (s2, Inl err) \<Rightarrow> (s2, Inl err)
           | (s2, Inr _) \<Rightarrow> fs_cpSync P source target s2))"

text \<open>The arrow of the two debug messages (U+2192), as its three UTF-8 bytes.\<close>

definition arrow :: string where
  "arrow = [CHR 0xE2, CHR 0x86, CHR 0x92]"

definition copiedMessage :: "string \<Rightarrow> string \<Rightarrow> string \<Rightarrow> string" where
  "copiedMessage source target how =
     ''Copied '' @ source @ '' '' @ arrow @ '' '' @ target @ '' using '' @ how"

text \<open>
  \<open>syncDirectory\<close>, lines 87-146, in its two halves: the validation of lines 91-110,
  which either throws or lets the call go on, and the strategies of lines 112-145.
\<close>

definition validatePaths ::
  "'w platform \<Rightarrow> string \<Rightarrow> string \<Rightarrow> 'w state \<Rightarrow> 'w state \<times> (js_error + unit)" where
  "validatePaths P source target s =
     (case fs_statSync P source s of
        (s1, Inl _) \<Rightarrow> (s1, Inl (JsError (''Source does not exist: '' @ source)))
      | (s1, Inr sourceStat) \<Rightarrow>
          if \<not> isDirectory sourceStat
          then (s1, Inl (JsError (''Source is not a directory: '' @ source)))
          else
            let resolvedSource = path_resolve P (world s1) source;
                resolvedTarget = path_resolve P (world s1) target
            in
              if prefix (resolvedSource @ [path_sep P]) resolvedTarget
              then (s1, Inl (JsError (''Target cannot be inside source: '' @ target
                                      @ '' is inside '' @ source)))
              else if prefix (resolvedTarget @ [path_sep P]) resolvedSource
              then (s1, Inl (JsError (''Source cannot be inside target: '' @ source
                                      @ '' is inside '' @ target)))
              else (s1, Inr ()))"

definition runFallback ::
  "'w platform \<Rightarrow> string \<Rightarrow> string \<Rightarrow> 'w state \<Rightarrow> 'w state \<times> (js_error + SyncDirectoryResult)" where
  "runFallback P source target s =
     (case copyWithNodeFs P source target s of
        (s1, Inr _) \<Rightarrow>
          (logDebug (copiedMessage source target ''fs.cpSync'') s1, Inr \<lparr>method' = Fs\<rparr>)
      | (s1, Inl err) \<Rightarrow>
          (fst (removeTarget P target s1), Inl err))"

definition runStrategies ::
  "'w platform \<Rightarrow> string \<Rightarrow> string \<Rightarrow> 'w state \<Rightarrow> 'w state \<times> (js_error + SyncDirectoryResult)" where
  "runStrategies P source target s =
     (case detectRsync P s of
        (s1, False) \<Rightarrow> runFallback P source target s1
      | (s1, True) \<Rightarrow>
          (case copyWithRsync P source target s1 of
             (s2, Inr _) \<Rightarrow>
               (logDebug (copiedMessage source target ''rsync'') s2, Inr \<lparr>method' = Rsync\<rparr>)
           | (s2, Inl err) \<Rightarrow>
               runFallback P source target
                 (logError (''rsync failed, falling back to fs: '' @ errorMessage err) s2)))"

definition syncDirectory ::
  "'w platform \<Rightarrow> string \<Rightarrow> string \<Rightarrow> 'w state \<Rightarrow> 'w state \<times> (js_error + SyncDirectoryResult)" where
  "syncDirectory P source target s =
     (case validatePaths P source target s of
        (s1, Inl err) \<Rightarrow> (s1, Inl err)
      | (s1, Inr _) \<Rightarrow> runStrategies P source target s1)"

text \<open>\<open>resetRsyncCache\<close>, lines 152-154, and \<open>setRsyncAvailable\<close>, lines 162-164.\<close>

definition resetRsyncCache :: "'w state \<Rightarrow> 'w state" where
  "resetRsyncCache s = s\<lparr>rsyncAvailable := None\<rparr>"

definition setRsyncAvailable :: "bool option \<Rightarrow> 'w state \<Rightarrow> 'w state" where
  "setRsyncAvailable v s = s\<lparr>rsyncAvailable := v\<rparr>"

text \<open>A process that has just started: nothing cached, nothing called.\<close>

definition initial_state :: "'w \<Rightarrow> 'w state" where
  "initial_state w = \<lparr>rsyncAvailable = None, world = w, trace = []\<rparr>"

section \<open>A POSIX platform\<close>

text \<open>
  A platform to run the module on: a file system of regular files and directories
  (no symbolic links, so no two spellings of a path reach a directory by different
  routes other than through \<open>.\<close> and \<open>..\<close>), \<open>/\<close> as the separator, and an external
  tool whose runs can be scripted to fail. The file system is the list of its entries,
  each under the components of its absolute path; the root is always a directory. The
  functions follow what Node documents for \<open>fs\<close> and \<open>path\<close> on POSIX and what
  \<^verbatim>\<open>rsync -a --delete src/ dst/\<close> does.
\<close>

datatype entry = FileE string | DirE

type_synonym fpath = "string list"

record fsworld =
  entries :: "(fpath \<times> entry) list"
  cwd :: fpath
  which_result :: "js_error + shell_output"
  rsync_runs :: "(js_error + shell_output) list"

definition node_at :: "(fpath \<times> entry) list \<Rightarrow> fpath \<Rightarrow> entry option" where
  "node_at es p = (if p = [] then Some DirE else map_of es p)"

definition is_dir :: "entry option \<Rightarrow> bool" where
  "is_dir n = (case n of Some DirE \<Rightarrow> True | _ \<Rightarrow> False)"

definition is_file :: "entry option \<Rightarrow> bool" where
  "is_file n = (case n of Some (FileE _) \<Rightarrow> True | _ \<Rightarrow> False)"

subsection \<open>Paths\<close>

fun split_from :: "string \<Rightarrow> string \<Rightarrow> string list" where
  "split_from acc [] = [rev acc]"
| "split_from acc (x # xs) =
     (if x = CHR ''/'' then rev acc # split_from [] xs else split_from (x # acc) xs)"

definition split_path :: "string \<Rightarrow> string list" where
  "split_path p = split_from [] p"

definition start_dir :: "fsworld \<Rightarrow> string \<Rightarrow> fpath" where
  "start_dir w p = (if p \<noteq> [] \<and> hd p = CHR ''/'' then [] else cwd w)"

text \<open>
  How the system resolves a path: component by component, each step taken from a
  directory that exists. The place reached need not exist itself.
\<close>

fun walk :: "(fpath \<times> entry) list \<Rightarrow> fpath \<Rightarrow> string list \<Rightarrow> fpath option" where
  "walk es cur [] = Some cur"
| "walk es cur (c # cs) =
     (if node_at es cur \<noteq> Some DirE then None
      else if c = [] \<or> c = ''.'' then walk es cur cs
      else if c = ''..'' then walk es (butlast cur) cs
      else walk es (cur @ [c]) cs)"

definition locate :: "fsworld \<Rightarrow> string \<Rightarrow> fpath option" where
  "locate w p = (if p = [] then None else walk (entries w) (start_dir w p) (split_path p))"

text \<open>A path that names something to create may end in separators.\<close>

definition strip_slashes :: "string \<Rightarrow> string" where
  "strip_slashes p =
     (let q = rev (dropWhile (\<lambda>c. c = CHR ''/'') (rev p))
      in if q = [] \<and> p \<noteq> [] then ''/'' else q)"

text \<open>\<open>path.resolve\<close>: the same steps taken on the text alone.\<close>

fun normalize_path :: "fpath \<Rightarrow> string list \<Rightarrow> fpath" where
  "normalize_path cur [] = cur"
| "normalize_path cur (c # cs) =
     (if c = [] \<or> c = ''.'' then normalize_path cur cs
      else if c = ''..'' then normalize_path (butlast cur) cs
      else normalize_path (cur @ [c]) cs)"

definition lexical :: "fsworld \<Rightarrow> string \<Rightarrow> fpath" where
  "lexical w p = normalize_path (start_dir w p) (split_path p)"

definition render :: "fpath \<Rightarrow> string" where
  "render cs = (if cs = [] then ''/'' else concat (map (\<lambda>c. CHR ''/'' # c) cs))"

definition posix_resolve :: "fsworld \<Rightarrow> string \<Rightarrow> string" where
  "posix_resolve w p = render (lexical w p)"

text \<open>
  \<open>path.dirname\<close>: scanning from the right and never looking at the first character,
  skip the trailing separators, then the last component; what is left ends in the
  separator at the index where the result is cut.
\<close>

definition posix_dirname :: "string \<Rightarrow> string" where
  "posix_dirname p =
     (if p = [] then ''.''
      else
        let hasRoot = (hd p = CHR ''/'');
            r = dropWhile (\<lambda>c. c \<noteq> CHR ''/'') (dropWhile (\<lambda>c. c = CHR ''/'') (rev (tl p)))
        in if r = [] then (if hasRoot then ''/'' else ''.'')
           else if hasRoot \<and> length r = 1 then ''//''
           else take (length r) p)"

subsection \<open>The file system\<close>

definition enoent :: "string \<Rightarrow> js_error" where
  "enoent p = JsError (''ENOENT: no such file or directory, '' @ p)"

definition posix_statSync :: "fsworld \<Rightarrow> string \<Rightarrow> js_error + stats" where
  "posix_statSync w p =
     (case locate w p of
        None \<Rightarrow> Inl (enoent p)
      | Some q \<Rightarrow>
          (case node_at (entries w) q of
             None \<Rightarrow> Inl (enoent p)
           | Some DirE \<Rightarrow> Inr StatsDirectory
           | Some (FileE _) \<Rightarrow> Inr StatsFile))"

definition posix_existsSync :: "fsworld \<Rightarrow> string \<Rightarrow> bool" where
  "posix_existsSync w p = (case posix_statSync w p of Inl _ \<Rightarrow> False | Inr _ \<Rightarrow> True)"

definition posix_unlinkSync :: "fsworld \<Rightarrow> string \<Rightarrow> fsworld \<times> (js_error + unit)" where
  "posix_unlinkSync w p =
     (case locate w p of
        None \<Rightarrow> (w, Inl (enoent p))
      | Some q \<Rightarrow>
          (case node_at (entries w) q of
             None \<Rightarrow> (w, Inl (enoent p))
           | Some DirE \<Rightarrow> (w, Inl (JsError (''EISDIR: illegal operation on a directory, '' @ p)))
           | Some (FileE _) \<Rightarrow>
               (w\<lparr>entries := filter (\<lambda>ke. fst ke \<noteq> q) (entries w)\<rparr>, Inr ())))"

text \<open>The last component of a path, separators at its end set aside.\<close>

definition last_component :: "string \<Rightarrow> string" where
  "last_component p = (case rev (filter (\<lambda>c. c \<noteq> []) (split_path p)) of [] \<Rightarrow> [] | c # _ \<Rightarrow> c)"

text \<open>
  \<open>rmSync\<close> with \<open>recursive\<close> and \<open>force\<close>. A path that does not exist is not an
  error. Of a directory, everything below it is removed first, and then the directory
  itself, through the same path. When the path has stopped resolving by then, because
  it goes through a directory that has just been removed (a path ending in \<open>..\<close>
  does), the directory stays, empty, and nothing is thrown. A path that still resolves
  and ends in \<open>..\<close> or \<open>.\<close>, and the root, cannot be removed either: the system
  refuses and the call throws, the directory left empty.
\<close>

definition posix_rmSync :: "fsworld \<Rightarrow> string \<Rightarrow> fsworld \<times> (js_error + unit)" where
  "posix_rmSync w p =
     (case locate w p of
        None \<Rightarrow> (w, Inr ())
      | Some q \<Rightarrow>
          (case node_at (entries w) q of
             None \<Rightarrow> (w, Inr ())
           | Some (FileE _) \<Rightarrow> (w\<lparr>entries := filter (\<lambda>ke. fst ke \<noteq> q) (entries w)\<rparr>, Inr ())
           | Some DirE \<Rightarrow>
               let w1 = w\<lparr>entries := filter (\<lambda>ke. \<not> (prefix q (fst ke) \<and> fst ke \<noteq> q)) (entries w)\<rparr>
               in (case locate w1 p of
                     None \<Rightarrow> (w1, Inr ())
                   | Some _ \<Rightarrow>
                       if last_component p = ''..''
                       then (w1, Inl (JsError (''ENOTEMPTY: directory not empty, '' @ p)))
                       else if last_component p = ''.''
                       then (w1, Inl (JsError (''EINVAL: invalid argument, '' @ p)))
                       else if q = []
                       then (w1, Inl (JsError (''EBUSY: resource busy or locked, '' @ p)))
                       else (w1\<lparr>entries := filter (\<lambda>ke. fst ke \<noteq> q) (entries w1)\<rparr>, Inr ()))))"

text \<open>
  \<open>mkdirSync\<close> with \<open>recursive\<close>: every directory on the way is created when it is
  missing; a regular file on the way is an error, and what was created stays.
\<close>

fun mkdirp :: "(fpath \<times> entry) list \<Rightarrow> fpath \<Rightarrow> string list \<Rightarrow> (fpath \<times> entry) list \<times> bool" where
  "mkdirp es cur [] = (es, True)"
| "mkdirp es cur (c # cs) =
     (if c = [] \<or> c = ''.'' then mkdirp es cur cs
      else if c = ''..'' then mkdirp es (butlast cur) cs
      else
        (case node_at es (cur @ [c]) of
           None \<Rightarrow> mkdirp ((cur @ [c], DirE) # es) (cur @ [c]) cs
         | Some DirE \<Rightarrow> mkdirp es (cur @ [c]) cs
         | Some (FileE _) \<Rightarrow> (es, False)))"

definition posix_mkdirSync :: "fsworld \<Rightarrow> string \<Rightarrow> fsworld \<times> (js_error + unit)" where
  "posix_mkdirSync w p =
     (if p = [] \<or> node_at (entries w) (start_dir w p) \<noteq> Some DirE then (w, Inl (enoent p))
      else
        (case mkdirp (entries w) (start_dir w p) (split_path p) of
           (es, True) \<Rightarrow> (w\<lparr>entries := es\<rparr>, Inr ())
         | (es, False) \<Rightarrow>
             (w\<lparr>entries := es\<rparr>, Inl (JsError (''EEXIST: file already exists, '' @ p)))))"

text \<open>
  \<open>cpSync\<close> with \<open>recursive\<close>. The entries below \<open>S\<close>, moved below \<open>D\<close>; a
  directory copied onto a directory is merged into it, entry by entry, and a file
  replaces a file. A directory meeting a file (or a file a directory) anywhere below
  is an error; Node has copied some entries by then, the model leaves the destination
  as it was.
\<close>

definition subtree_copy :: "(fpath \<times> entry) list \<Rightarrow> fpath \<Rightarrow> fpath \<Rightarrow> (fpath \<times> entry) list" where
  "subtree_copy es S D =
     map (\<lambda>ke. (D @ drop (length S) (fst ke), snd ke)) (filter (\<lambda>ke. prefix S (fst ke)) es)"

definition clash :: "(fpath \<times> entry) list \<Rightarrow> fpath \<Rightarrow> fpath \<Rightarrow> bool" where
  "clash es S D =
     list_ex
       (\<lambda>ke. case (map_of es (fst ke), node_at es (D @ drop (length S) (fst ke))) of
                (Some e, Some e') \<Rightarrow> (e = DirE) \<noteq> (e' = DirE)
              | _ \<Rightarrow> False)
       (filter (\<lambda>ke. prefix S (fst ke)) es)"

definition cp_clash :: js_error where
  "cp_clash = JsError ''ERR_FS_CP_DIR_TO_NON_DIR''"

definition einval :: "string \<Rightarrow> js_error" where
  "einval what = JsError (''ERR_FS_CP_EINVAL: '' @ what)"

definition posix_cpSync :: "fsworld \<Rightarrow> string \<Rightarrow> string \<Rightarrow> fsworld \<times> (js_error + unit)" where
  "posix_cpSync w src dst =
     (case locate w src of
        None \<Rightarrow> (w, Inl (enoent src))
      | Some S \<Rightarrow>
          (case node_at (entries w) S of
             None \<Rightarrow> (w, Inl (enoent src))
           | Some srcEntry \<Rightarrow>
               let destStat = (case locate w (strip_slashes dst) of
                                 None \<Rightarrow> None
                               | Some D \<Rightarrow> node_at (entries w) D)
               in
                 if destStat \<noteq> None \<and> locate w (strip_slashes dst) = Some S
                 then (w, Inl (einval ''src and dest cannot be the same''))
                 else if srcEntry = DirE \<and> is_file destStat
                 then (w, Inl (JsError ''ERR_FS_CP_DIR_TO_NON_DIR''))
                 else if srcEntry \<noteq> DirE \<and> is_dir destStat
                 then (w, Inl (JsError ''ERR_FS_CP_NON_DIR_TO_DIR''))
                 else if srcEntry = DirE \<and> prefix (lexical w src) (lexical w dst)
                 then (w, Inl (einval ''cannot copy to a subdirectory of self''))
                 else
                   (case (if posix_existsSync w (posix_dirname dst) then (w, Inr ())
                          else posix_mkdirSync w (posix_dirname dst)) of
                      (w1, Inl err) \<Rightarrow> (w1, Inl err)
                    | (w1, Inr _) \<Rightarrow>
                        (case locate w1 (strip_slashes dst) of
                           None \<Rightarrow> (w1, Inl (enoent dst))
                         | Some D \<Rightarrow>
                             (case srcEntry of
                                FileE c \<Rightarrow>
                                  (w1\<lparr>entries := (D, FileE c)
                                         # filter (\<lambda>ke. fst ke \<noteq> D) (entries w1)\<rparr>, Inr ())
                              | DirE \<Rightarrow>
                                  if clash (entries w1) S D
                                  then (w1, Inl cp_clash)
                                  else (w1\<lparr>entries := (D, DirE)
                                              # subtree_copy (entries w1) S D @ entries w1\<rparr>,
                                        Inr ()))))))"

subsection \<open>The shell\<close>

text \<open>
  \<^verbatim>\<open>rsync -a --delete src/ dst/\<close>: the destination directory is created when only its
  last component is missing, everything below it that the source does not have is
  deleted, and the source's entries are copied. A source that is not a directory and
  a destination that is a regular file or has a missing parent are errors.
\<close>

definition rsync_failed :: shell_output where
  "rsync_failed = \<lparr>exitCode = 23, stderr = ''rsync error: some files could not be transferred''\<rparr>"

definition rsync_mirror :: "fsworld \<Rightarrow> string \<Rightarrow> string \<Rightarrow> fsworld \<times> (js_error + shell_output)" where
  "rsync_mirror w a b =
     (case (locate w a, locate w (strip_slashes b)) of
        (Some S, Some T) \<Rightarrow>
          if \<not> is_dir (node_at (entries w) S) \<or> is_file (node_at (entries w) T)
          then (w, Inr rsync_failed)
          else if S = T then (w, Inr \<lparr>exitCode = 0, stderr = []\<rparr>)
          else (w\<lparr>entries := (T, DirE) # subtree_copy (entries w) S T
                              @ filter (\<lambda>ke. \<not> prefix T (fst ke)) (entries w)\<rparr>,
                Inr \<lparr>exitCode = 0, stderr = []\<rparr>)
      | _ \<Rightarrow> (w, Inr rsync_failed))"

text \<open>
  Each run of the tool takes the next entry of \<open>rsync_runs\<close>: a thrown value or a
  nonzero exit code is what the run ends with, the file system untouched; an exit
  code of zero, or no entry left, lets the tool do its work.
\<close>

definition posix_rsync :: "fsworld \<Rightarrow> string \<Rightarrow> string \<Rightarrow> fsworld \<times> (js_error + shell_output)" where
  "posix_rsync w a b =
     (case rsync_runs w of
        [] \<Rightarrow> rsync_mirror w a b
      | Inl err # rest \<Rightarrow> (w\<lparr>rsync_runs := rest\<rparr>, Inl err)
      | Inr out # rest \<Rightarrow>
          if exitCode out = 0 then rsync_mirror (w\<lparr>rsync_runs := rest\<rparr>) a b
          else (w\<lparr>rsync_runs := rest\<rparr>, Inr out))"

definition posix :: "fsworld platform" where
  "posix =
     \<lparr>statSync = posix_statSync,
      existsSync = posix_existsSync,
      lstatSync = posix_statSync,
      unlinkSync = posix_unlinkSync,
      rmSync = posix_rmSync,
      mkdirSync = posix_mkdirSync,
      cpSync = posix_cpSync,
      path_resolve = posix_resolve,
      path_dirname = posix_dirname,
      path_sep = CHR ''/'',
      sh_which_rsync = which_result,
      sh_rsync = posix_rsync\<rparr>"

text \<open>What a directory holds: the entry at each path below it.\<close>

definition contents :: "fsworld \<Rightarrow> fpath \<Rightarrow> fpath \<Rightarrow> entry option" where
  "contents w d = (\<lambda>q. if q = [] then None else node_at (entries w) (d @ q))"

subsection \<open>Paths in resolved form and well-formed file systems\<close>

text \<open>
  The text of a path is in resolved form when it is absolute and every component is a
  name: what \<open>path.resolve\<close> returns, the root apart.
\<close>

definition is_name :: "string \<Rightarrow> bool" where
  "is_name c = (c \<noteq> [] \<and> c \<noteq> ''.'' \<and> c \<noteq> ''..'')"

definition resolved_form :: "string \<Rightarrow> bool" where
  "resolved_form p = (p \<noteq> [] \<and> hd p = CHR ''/'' \<and> list_all is_name (tl (split_path p)))"

text \<open>Components put back together, the separator between them.\<close>

fun join_path :: "string list \<Rightarrow> string" where
  "join_path [] = []"
| "join_path [c] = c"
| "join_path (c # d # cs) = c @ CHR ''/'' # join_path (d # cs)"

text \<open>A file system is well formed when every entry lies in a directory.\<close>

definition wf_entries :: "(fpath \<times> entry) list \<Rightarrow> bool" where
  "wf_entries es = list_all (\<lambda>ke. fst ke = [] \<or> node_at es (butlast (fst ke)) = Some DirE) es"

section \<open>Scenarios\<close>

subsection \<open>Calls on the module, one after another\<close>

text \<open>What a caller can do with the module: its four exported functions.\<close>

datatype call =
    CallDetect
  | CallSync string string
  | CallReset
  | CallOverride "bool option"

fun perform :: "'w platform \<Rightarrow> call \<Rightarrow> 'w state \<Rightarrow> 'w state" where
  "perform P CallDetect s = fst (detectRsync P s)"
| "perform P (CallSync source target) s = fst (syncDirectory P source target s)"
| "perform P CallReset s = resetRsyncCache s"
| "perform P (CallOverride v) s = setRsyncAvailable v s"

definition run_calls :: "'w platform \<Rightarrow> call list \<Rightarrow> 'w state \<Rightarrow> 'w state" where
  "run_calls P cs s = foldl (\<lambda>s' c. perform P c s') s cs"

text \<open>The calls that put the cache back to unknown, and the calls that never set it
  by hand.\<close>

fun reenables :: "call \<Rightarrow> bool" where
  "reenables CallReset = True"
| "reenables (CallOverride None) = True"
| "reenables _ = False"

fun plain_call :: "call \<Rightarrow> bool" where
  "plain_call CallDetect = True"
| "plain_call (CallSync _ _) = True"
| "plain_call _ = False"

subsection \<open>Worlds to run the module in\<close>

text \<open>\<open>/tmp/a\<close> holding \<open>f.txt\<close> and \<open>/tmp/b\<close> holding \<open>g.txt\<close>; the tool is installed.\<close>

definition demo_world :: fsworld where
  "demo_world =
     \<lparr>entries = [([''tmp''], DirE),
                 ([''tmp'', ''a''], DirE), ([''tmp'', ''a'', ''f.txt''], FileE ''x''),
                 ([''tmp'', ''b''], DirE), ([''tmp'', ''b'', ''g.txt''], FileE ''y'')],
      cwd = [],
      which_result = Inr \<lparr>exitCode = 0, stderr = []\<rparr>,
      rsync_runs = []\<rparr>"

text \<open>The same, with a tool whose next run ends with exit code 12.\<close>

definition flaky_world :: fsworld where
  "flaky_world = demo_world\<lparr>rsync_runs := [Inr \<lparr>exitCode = 12, stderr = ''boom''\<rparr>]\<rparr>"

text \<open>The same, with a tool that works on its first run and exits with code 12 on its
  second.\<close>

definition twice_world :: fsworld where
  "twice_world =
     demo_world\<lparr>rsync_runs := [Inr \<lparr>exitCode = 0, stderr = []\<rparr>,
                              Inr \<lparr>exitCode = 12, stderr = ''boom''\<rparr>]\<rparr>"

text \<open>\<open>/tmp/a\<close> holding a regular file \<open>c\<close>; the probe for the tool throws.\<close>

definition clash_world :: fsworld where
  "clash_world =
     \<lparr>entries = [([''tmp''], DirE),
                 ([''tmp'', ''a''], DirE), ([''tmp'', ''a'', ''c''], FileE ''x'')],
      cwd = [],
      which_result = Inl (JsError ''ShellError: Failed with exit code 1''),
      rsync_runs = []\<rparr>"

section \<open>Properties\<close>

subsection \<open>The cache of the tool's availability\<close>

lemmas call_defs =
  record_event_def fs_statSync_def fs_existsSync_def fs_lstatSync_def fs_unlinkSync_def
  fs_rmSync_def fs_mkdirSync_def fs_cpSync_def shell_which_rsync_def shell_rsync_def
  logDebug_def logError_def

lemma removeTarget_cache: "rsyncAvailable (fst (removeTarget P target s)) = rsyncAvailable s"
  by (simp add: removeTarget_def call_defs split: prod.splits sum.splits bool.splits)

lemma copyWithNodeFs_cache: "rsyncAvailable (fst (copyWithNodeFs P source target s)) = rsyncAvailable s"
  using removeTarget_cache [of P target s]
  by (auto simp add: copyWithNodeFs_def call_defs split: prod.splits sum.splits)

lemma copyWithRsync_cache: "rsyncAvailable (fst (copyWithRsync P source target s)) = rsyncAvailable s"
  by (simp add: copyWithRsync_def call_defs split: prod.splits sum.splits)

lemma runFallback_cache: "rsyncAvailable (fst (runFallback P source target s)) = rsyncAvailable s"
proof (cases "copyWithNodeFs P source target s")
  case (Pair s1 r)
  then have c: "rsyncAvailable s1 = rsyncAvailable s"
    using copyWithNodeFs_cache [of P source target s] by simp
  show ?thesis
    using Pair c removeTarget_cache [of P target s1]
    by (simp add: runFallback_def call_defs split: sum.splits)
qed

lemma detectRsync_cached: "rsyncAvailable s = Some b \<Longrightarrow> detectRsync P s = (s, b)"
  by (simp add: detectRsync_def)

lemma validatePaths_cache: "rsyncAvailable (fst (validatePaths P source target s)) = rsyncAvailable s"
  by (simp add: validatePaths_def call_defs Let_def split: prod.splits sum.splits)

lemma runStrategies_cache:
  assumes "rsyncAvailable s = Some b"
  shows "rsyncAvailable (fst (runStrategies P source target s)) = Some b"
proof (cases b)
  case False
  then show ?thesis
    using assms runFallback_cache [of P source target s]
    by (simp add: runStrategies_def detectRsync_cached)
next
  case True
  obtain s2 r where cr: "copyWithRsync P source target s = (s2, r)"
    by (cases "copyWithRsync P source target s")
  then have c2: "rsyncAvailable s2 = Some b"
    using copyWithRsync_cache [of P source target s] assms by simp
  show ?thesis
  proof (cases r)
    case (Inl err)
    then show ?thesis
      using True assms cr c2
        runFallback_cache [of P source target "logError (''rsync failed, falling back to fs: '' @ errorMessage err) s2"]
      by (simp add: runStrategies_def detectRsync_cached call_defs)
  next
    case (Inr u)
    then show ?thesis
      using True assms cr c2 by (simp add: runStrategies_def detectRsync_cached call_defs)
  qed
qed

lemma syncDirectory_cache:
  assumes "rsyncAvailable s = Some b"
  shows "rsyncAvailable (fst (syncDirectory P source target s)) = Some b"
proof (cases "validatePaths P source target s")
  case (Pair s1 r)
  then have c1: "rsyncAvailable s1 = Some b"
    using validatePaths_cache [of P source target s] assms by simp
  show ?thesis
    using Pair c1 runStrategies_cache [OF c1, of P source target]
    by (simp add: syncDirectory_def split: sum.splits)
qed

lemma perform_plain_cache:
  "rsyncAvailable s = Some b \<Longrightarrow> plain_call c \<Longrightarrow> rsyncAvailable (perform P c s) = Some b"
  by (cases c) (simp_all add: detectRsync_cached syncDirectory_cache)

lemma perform_known_cache:
  "rsyncAvailable s \<noteq> None \<Longrightarrow> \<not> reenables c \<Longrightarrow> rsyncAvailable (perform P c s) \<noteq> None"
proof (cases c)
  case (CallOverride v)
  assume "\<not> reenables c"
  with CallOverride show ?thesis by (cases v) (simp_all add: setRsyncAvailable_def)
qed (auto simp add: detectRsync_cached syncDirectory_cache)

lemma run_calls_plain_cache:
  "rsyncAvailable s = Some b \<Longrightarrow> list_all plain_call cs \<Longrightarrow> rsyncAvailable (run_calls P cs s) = Some b"
  unfolding run_calls_def
  by (induction cs arbitrary: s) (simp_all add: perform_plain_cache)

lemma run_calls_known_cache:
  "rsyncAvailable s \<noteq> None \<Longrightarrow> \<not> list_ex reenables cs \<Longrightarrow> rsyncAvailable (run_calls P cs s) \<noteq> None"
  unfolding run_calls_def
proof (induction cs arbitrary: s)
  case Nil
  then show ?case by simp
next
  case (Cons c cs)
  have "rsyncAvailable (perform P c s) \<noteq> None"
    using Cons.prems by (intro perform_known_cache) simp_all
  then show ?case
    using Cons.IH [of "perform P c s"] Cons.prems by simp
qed

lemma perform_reenables:
  "reenables c \<Longrightarrow> rsyncAvailable (perform P c s) = None"
  by (cases c rule: reenables.cases) (simp_all add: resetRsyncCache_def setRsyncAvailable_def)

text \<open>
  Claim C7. Once the cache holds \<open>available\<close> or \<open>unavailable\<close>, \<open>detectRsync\<close> returns
  the cached value and leaves the whole state as it was: the trace gets no entry, so
  nothing is probed. Among the four exported functions only \<open>resetRsyncCache\<close> and
  \<open>setRsyncAvailable(null)\<close> put the cache back to unknown. After any sequence of
  \<open>detectRsync\<close> and \<open>syncDirectory\<close> calls the next \<open>detectRsync\<close> still returns the
  same value without a probe, and after any sequence of calls without a reset or an
  override with \<open>null\<close> it still returns without a probe.
\<close>

theorem cache_never_reprobed:
  assumes "rsyncAvailable s = Some b"
  shows "detectRsync P s = (s, b)
       \<and> (rsyncAvailable (perform P c s) = None \<longleftrightarrow> reenables c)
       \<and> (list_all plain_call cs \<longrightarrow>
            detectRsync P (run_calls P cs s) = (run_calls P cs s, b))
       \<and> (\<not> list_ex reenables cs \<longrightarrow>
            trace (fst (detectRsync P (run_calls P cs s))) = trace (run_calls P cs s)
          \<and> rsyncAvailable (fst (detectRsync P (run_calls P cs s))) \<noteq> None)"
proof -
  have known: "rsyncAvailable s \<noteq> None" using assms by simp
  have one: "detectRsync P s = (s, b)" by (rule detectRsync_cached [OF assms])
  have two: "rsyncAvailable (perform P c s) = None \<longleftrightarrow> reenables c"
    using perform_reenables [of c P s] perform_known_cache [OF known, of c P] by blast
  have three: "detectRsync P (run_calls P cs s) = (run_calls P cs s, b)" if "list_all plain_call cs"
    by (rule detectRsync_cached [OF run_calls_plain_cache [OF assms that]])
  have four: "trace (fst (detectRsync P (run_calls P cs s))) = trace (run_calls P cs s)
          \<and> rsyncAvailable (fst (detectRsync P (run_calls P cs s))) \<noteq> None"
    if quiet: "\<not> list_ex reenables cs"
  proof -
    obtain b' where "rsyncAvailable (run_calls P cs s) = Some b'"
      using run_calls_known_cache [OF known quiet, of P] by auto
    then show ?thesis by (simp add: detectRsync_cached)
  qed
  show ?thesis using one two three four by blast
qed


theorem cache_never_reprobed_witness:
  "rsyncAvailable (setRsyncAvailable (Some False) (initial_state demo_world)) = Some False
   \<and> detectRsync posix (setRsyncAvailable (Some False) (initial_state demo_world))
       = (setRsyncAvailable (Some False) (initial_state demo_world), False)
   \<and> rsyncAvailable (perform posix CallReset
         (setRsyncAvailable (Some False) (initial_state demo_world))) = None
   \<and> list_all plain_call [CallDetect, CallSync ''/tmp/a'' ''/tmp/b'']
   \<and> detectRsync posix (run_calls posix [CallDetect, CallSync ''/tmp/a'' ''/tmp/b'']
         (setRsyncAvailable (Some False) (initial_state demo_world)))
       = (run_calls posix [CallDetect, CallSync ''/tmp/a'' ''/tmp/b'']
           (setRsyncAvailable (Some False) (initial_state demo_world)), False)"
  using cache_never_reprobed [of "setRsyncAvailable (Some False) (initial_state demo_world)"
      False posix CallReset "[CallDetect, CallSync ''/tmp/a'' ''/tmp/b'']"]
  by (simp add: setRsyncAvailable_def initial_state_def)

subsection \<open>Detection\<close>

text \<open>
  Claim C8. \<open>detectRsync\<close> returns a boolean whatever the probe does, and the cache
  holds that boolean afterwards. With nothing cached it probes once: a probe that
  finishes with exit code 0 gives \<open>true\<close>; a probe that finishes with another exit code
  gives \<open>false\<close>; a probe that throws gives \<open>false\<close> as well, and the thrown value goes
  no further.
\<close>

theorem detect_never_throws:
  "rsyncAvailable (fst (detectRsync P s)) = Some (snd (detectRsync P s))
   \<and> (rsyncAvailable s = None \<longrightarrow>
        (sh_which_rsync P (world s) = Inr result \<and> exitCode result = 0 \<longrightarrow>
           detectRsync P s = ((record_event EvWhichRsync s)\<lparr>rsyncAvailable := Some True\<rparr>, True))
      \<and> (sh_which_rsync P (world s) = Inr result \<and> exitCode result \<noteq> 0 \<longrightarrow>
           detectRsync P s = ((record_event EvWhichRsync s)\<lparr>rsyncAvailable := Some False\<rparr>, False))
      \<and> (sh_which_rsync P (world s) = Inl err \<longrightarrow>
           detectRsync P s = ((record_event EvWhichRsync s)\<lparr>rsyncAvailable := Some False\<rparr>, False)))"
  by (cases "rsyncAvailable s"; cases "sh_which_rsync P (world s)")
     (simp_all add: detectRsync_def shell_which_rsync_def)

theorem detect_never_throws_witness:
  "rsyncAvailable (initial_state clash_world) = None
   \<and> sh_which_rsync posix (world (initial_state clash_world))
       = Inl (JsError ''ShellError: Failed with exit code 1'')
   \<and> detectRsync posix (initial_state clash_world)
       = ((record_event EvWhichRsync (initial_state clash_world))\<lparr>rsyncAvailable := Some False\<rparr>, False)
   \<and> sh_which_rsync posix (world (initial_state demo_world)) = Inr \<lparr>exitCode = 0, stderr = []\<rparr>
   \<and> detectRsync posix (initial_state demo_world)
       = ((record_event EvWhichRsync (initial_state demo_world))\<lparr>rsyncAvailable := Some True\<rparr>, True)"
proof -
  have n: "rsyncAvailable (initial_state w) = None" for w :: fsworld
    by (simp add: initial_state_def)
  have p1: "sh_which_rsync posix (world (initial_state clash_world))
       = Inl (JsError ''ShellError: Failed with exit code 1'')"
    by (simp add: posix_def initial_state_def clash_world_def)
  have p2: "sh_which_rsync posix (world (initial_state demo_world)) = Inr \<lparr>exitCode = 0, stderr = []\<rparr>"
    by (simp add: posix_def initial_state_def demo_world_def)
  have r1: "detectRsync posix (initial_state clash_world)
       = ((record_event EvWhichRsync (initial_state clash_world))\<lparr>rsyncAvailable := Some False\<rparr>, False)"
    using detect_never_throws [of posix "initial_state clash_world" "\<lparr>exitCode = 0, stderr = []\<rparr>"
        "JsError ''ShellError: Failed with exit code 1''"] n p1
    by simp
  have r2: "detectRsync posix (initial_state demo_world)
       = ((record_event EvWhichRsync (initial_state demo_world))\<lparr>rsyncAvailable := Some True\<rparr>, True)"
    using detect_never_throws [of posix "initial_state demo_world" "\<lparr>exitCode = 0, stderr = []\<rparr>"
        "JsError []"] n p2
    by simp
  show ?thesis using n p1 p2 r1 r2 by simp
qed

subsection \<open>Validation\<close>

lemma validatePaths_missing:
  "statSync P (world s) source = Inl e \<Longrightarrow>
   validatePaths P source target s
     = (record_event (EvStatSync source) s, Inl (JsError (''Source does not exist: '' @ source)))"
  by (simp add: validatePaths_def fs_statSync_def)

lemma validatePaths_not_directory:
  "statSync P (world s) source = Inr st \<Longrightarrow> \<not> isDirectory st \<Longrightarrow>
   validatePaths P source target s
     = (record_event (EvStatSync source) s, Inl (JsError (''Source is not a directory: '' @ source)))"
  by (simp add: validatePaths_def fs_statSync_def)

lemma validatePaths_directory:
  "statSync P (world s) source = Inr st \<Longrightarrow> isDirectory st \<Longrightarrow>
   validatePaths P source target s
     = (record_event (EvStatSync source) s,
        if prefix (path_resolve P (world s) source @ [path_sep P]) (path_resolve P (world s) target)
        then Inl (JsError (''Target cannot be inside source: '' @ target @ '' is inside '' @ source))
        else if prefix (path_resolve P (world s) target @ [path_sep P]) (path_resolve P (world s) source)
        then Inl (JsError (''Source cannot be inside target: '' @ source @ '' is inside '' @ target))
        else Inr ())"
  by (simp add: validatePaths_def fs_statSync_def record_event_def Let_def)

lemma validatePaths_state:
  "fst (validatePaths P source target s) = record_event (EvStatSync source) s"
  by (simp add: validatePaths_def fs_statSync_def Let_def split: sum.splits)

lemma syncDirectory_rejected:
  "validatePaths P source target s = (s1, Inl err) \<Longrightarrow> syncDirectory P source target s = (s1, Inl err)"
  by (simp add: syncDirectory_def)

lemma syncDirectory_accepted:
  "validatePaths P source target s = (s1, Inr u) \<Longrightarrow>
   syncDirectory P source target s = runStrategies P source target s1"
  by (simp add: syncDirectory_def)

lemma not_both_inside: "prefix (a @ [c]) b \<Longrightarrow> \<not> prefix (b @ [c]) a"
proof
  assume "prefix (a @ [c]) b" and "prefix (b @ [c]) a"
  then have "length (a @ [c]) \<le> length b" and "length (b @ [c]) \<le> length a"
    by (auto dest: prefix_length_le)
  then show False by simp
qed

lemma not_inside_itself: "\<not> prefix (a @ [c]) a"
proof
  assume "prefix (a @ [c]) a"
  then have "length (a @ [c]) \<le> length a" by (rule prefix_length_le)
  then show False by simp
qed

text \<open>
  Claim C6. When \<open>statSync(source)\<close> throws, the call throws
  \<open>Source does not exist: <source>\<close>; when it returns something that is not a directory,
  the call throws \<open>Source is not a directory: <source>\<close>. Either way the one call made
  to the outside is that \<open>statSync\<close>, whatever the paths resolve to, and the world is
  the one the call started in.
\<close>

theorem source_checked_first:
  "(statSync P (world s) source = Inl e \<longrightarrow>
      syncDirectory P source target s
        = (record_event (EvStatSync source) s,
           Inl (JsError (''Source does not exist: '' @ source))))
   \<and> (statSync P (world s) source = Inr st \<and> \<not> isDirectory st \<longrightarrow>
      syncDirectory P source target s
        = (record_event (EvStatSync source) s,
           Inl (JsError (''Source is not a directory: '' @ source))))
   \<and> world (record_event (EvStatSync source) s) = world s
   \<and> trace (record_event (EvStatSync source) s) = trace s @ [EvStatSync source]"
  using validatePaths_missing [of P s source e target]
        validatePaths_not_directory [of P s source st target]
  by (auto simp add: syncDirectory_def record_event_def)

theorem source_checked_first_witness:
  "statSync posix (world (initial_state demo_world)) ''/tmp/missing''
     = Inl (enoent ''/tmp/missing'')
   \<and> syncDirectory posix ''/tmp/missing'' ''/tmp/missing/sub'' (initial_state demo_world)
     = (record_event (EvStatSync ''/tmp/missing'') (initial_state demo_world),
        Inl (JsError ''Source does not exist: /tmp/missing''))
   \<and> statSync posix (world (initial_state demo_world)) ''/tmp/a/f.txt'' = Inr StatsFile
   \<and> \<not> isDirectory StatsFile
   \<and> syncDirectory posix ''/tmp/a/f.txt'' ''/tmp/a/f.txt/sub'' (initial_state demo_world)
     = (record_event (EvStatSync ''/tmp/a/f.txt'') (initial_state demo_world),
        Inl (JsError ''Source is not a directory: /tmp/a/f.txt''))"
proof -
  have h: "statSync posix (world (initial_state demo_world)) ''/tmp/missing''
     = Inl (enoent ''/tmp/missing'')"
    by code_simp
  have k: "statSync posix (world (initial_state demo_world)) ''/tmp/a/f.txt'' = Inr StatsFile"
    by code_simp
  have n: "\<not> isDirectory StatsFile"
    by (simp add: isDirectory_def)
  have missing: "syncDirectory posix ''/tmp/missing'' ''/tmp/missing/sub'' (initial_state demo_world)
     = (record_event (EvStatSync ''/tmp/missing'') (initial_state demo_world),
        Inl (JsError ''Source does not exist: /tmp/missing''))"
    using h source_checked_first [of posix "initial_state demo_world" "''/tmp/missing''"
        "enoent ''/tmp/missing''" "''/tmp/missing/sub''" StatsFile]
    by simp
  have notdir: "syncDirectory posix ''/tmp/a/f.txt'' ''/tmp/a/f.txt/sub'' (initial_state demo_world)
     = (record_event (EvStatSync ''/tmp/a/f.txt'') (initial_state demo_world),
        Inl (JsError ''Source is not a directory: /tmp/a/f.txt''))"
    using k n source_checked_first [of posix "initial_state demo_world" "''/tmp/a/f.txt''"
        "enoent []" "''/tmp/a/f.txt/sub''" StatsFile]
    by simp
  show ?thesis using h k n missing notdir by simp
qed

text \<open>
  Claim C10. When source is an existing directory and both paths resolve to the same
  text, neither overlap check fires: the validation lets the call through, and the
  call goes on to choose and run a strategy.
\<close>

theorem equal_paths_pass_validation:
  assumes "statSync P (world s) source = Inr st" and "isDirectory st"
      and "path_resolve P (world s) target = path_resolve P (world s) source"
  shows "validatePaths P source target s = (record_event (EvStatSync source) s, Inr ())
       \<and> syncDirectory P source target s
           = runStrategies P source target (record_event (EvStatSync source) s)"
proof -
  have v: "validatePaths P source target s = (record_event (EvStatSync source) s, Inr ())"
    using validatePaths_directory [OF assms(1,2), of target] assms(3)
    by (simp add: not_inside_itself)
  show ?thesis using v syncDirectory_accepted [OF v] by simp
qed

theorem equal_paths_pass_validation_witness:
  "statSync posix (world (initial_state demo_world)) ''/tmp/a'' = Inr StatsDirectory
   \<and> isDirectory StatsDirectory
   \<and> path_resolve posix (world (initial_state demo_world)) ''/tmp/b/../a/''
       = path_resolve posix (world (initial_state demo_world)) ''/tmp/a''
   \<and> validatePaths posix ''/tmp/a'' ''/tmp/b/../a/'' (initial_state demo_world)
       = (record_event (EvStatSync ''/tmp/a'') (initial_state demo_world), Inr ())
   \<and> syncDirectory posix ''/tmp/a'' ''/tmp/b/../a/'' (initial_state demo_world)
       = runStrategies posix ''/tmp/a'' ''/tmp/b/../a/''
           (record_event (EvStatSync ''/tmp/a'') (initial_state demo_world))"
proof -
  have h1: "statSync posix (world (initial_state demo_world)) ''/tmp/a'' = Inr StatsDirectory"
    by code_simp
  have h2: "isDirectory StatsDirectory"
    by (simp add: isDirectory_def)
  have h3: "path_resolve posix (world (initial_state demo_world)) ''/tmp/b/../a/''
       = path_resolve posix (world (initial_state demo_world)) ''/tmp/a''"
    by code_simp
  show ?thesis
    using equal_paths_pass_validation [OF h1 h2 h3] h1 h2 h3 by simp
qed

text \<open>
  What the test of lines 105 and 108 does reject. When source is an existing
  directory: a resolved target that starts with the resolved source followed by the
  separator makes the call throw \<open>Target cannot be inside source\<close>, and a resolved
  source that starts with the resolved target followed by the separator makes it throw
  \<open>Source cannot be inside target\<close>. In both cases the one call made to the outside is
  \<open>statSync(source)\<close> and the world is the one the call started in.
\<close>

lemma startsWith_rejected_unchanged:
  assumes "statSync P (world s) source = Inr st" and "isDirectory st"
  shows "(prefix (path_resolve P (world s) source @ [path_sep P]) (path_resolve P (world s) target) \<longrightarrow>
            syncDirectory P source target s
              = (record_event (EvStatSync source) s,
                 Inl (JsError (''Target cannot be inside source: '' @ target
                               @ '' is inside '' @ source))))
       \<and> (prefix (path_resolve P (world s) target @ [path_sep P]) (path_resolve P (world s) source) \<longrightarrow>
            syncDirectory P source target s
              = (record_event (EvStatSync source) s,
                 Inl (JsError (''Source cannot be inside target: '' @ source
                               @ '' is inside '' @ target))))
       \<and> world (record_event (EvStatSync source) s) = world s
       \<and> trace (record_event (EvStatSync source) s) = trace s @ [EvStatSync source]"
  using validatePaths_directory [OF assms, of target]
        not_both_inside [of "path_resolve P (world s) target" "path_sep P" "path_resolve P (world s) source"]
  by (auto simp add: syncDirectory_def record_event_def)

lemma startsWith_rejected_unchanged_witness:
  "statSync posix (world (initial_state demo_world)) ''/tmp/a'' = Inr StatsDirectory
   \<and> isDirectory StatsDirectory
   \<and> prefix (path_resolve posix (world (initial_state demo_world)) ''/tmp/a'' @ [path_sep posix])
        (path_resolve posix (world (initial_state demo_world)) ''/tmp/a/sub'')
   \<and> syncDirectory posix ''/tmp/a'' ''/tmp/a/sub'' (initial_state demo_world)
       = (record_event (EvStatSync ''/tmp/a'') (initial_state demo_world),
          Inl (JsError ''Target cannot be inside source: /tmp/a/sub is inside /tmp/a''))
   \<and> prefix (path_resolve posix (world (initial_state demo_world)) ''/tmp'' @ [path_sep posix])
        (path_resolve posix (world (initial_state demo_world)) ''/tmp/a'')
   \<and> syncDirectory posix ''/tmp/a'' ''/tmp'' (initial_state demo_world)
       = (record_event (EvStatSync ''/tmp/a'') (initial_state demo_world),
          Inl (JsError ''Source cannot be inside target: /tmp/a is inside /tmp''))"
proof -
  have h1: "statSync posix (world (initial_state demo_world)) ''/tmp/a'' = Inr StatsDirectory"
    by code_simp
  have h2: "isDirectory StatsDirectory"
    by (simp add: isDirectory_def)
  have p1: "prefix (path_resolve posix (world (initial_state demo_world)) ''/tmp/a'' @ [path_sep posix])
        (path_resolve posix (world (initial_state demo_world)) ''/tmp/a/sub'')"
    by code_simp
  have p2: "prefix (path_resolve posix (world (initial_state demo_world)) ''/tmp'' @ [path_sep posix])
        (path_resolve posix (world (initial_state demo_world)) ''/tmp/a'')"
    by code_simp
  have r1: "syncDirectory posix ''/tmp/a'' ''/tmp/a/sub'' (initial_state demo_world)
       = (record_event (EvStatSync ''/tmp/a'') (initial_state demo_world),
          Inl (JsError ''Target cannot be inside source: /tmp/a/sub is inside /tmp/a''))"
    using startsWith_rejected_unchanged [OF h1 h2, of "''/tmp/a/sub''"] p1 by simp
  have r2: "syncDirectory posix ''/tmp/a'' ''/tmp'' (initial_state demo_world)
       = (record_event (EvStatSync ''/tmp/a'') (initial_state demo_world),
          Inl (JsError ''Source cannot be inside target: /tmp/a is inside /tmp''))"
    using startsWith_rejected_unchanged [OF h1 h2, of "''/tmp''"] p2 by simp
  show ?thesis using h1 h2 p1 p2 r1 r2 by simp
qed

text \<open>
  Claim C2. A target that lies inside source, and a source that lies inside target,
  are to be rejected before anything is changed: the comment on the check says that
  overlapping paths would cause infinite recursion or data loss, and the docstring that
  the call throws if the paths overlap. The test compares the resolved texts, asking
  whether the one starts with the other followed by the separator. The resolved text
  of the root is the separator alone, and the root followed by the separator is \<open>//\<close>,
  which begins no resolved path. So with the root as one of the two paths the test lets
  an overlapping pair through.

  With source \<open>/tmp/a\<close>, an existing directory, and target \<open>/\<close>: source lies inside
  target, the validation returns normally, and with the tool unavailable the call goes
  on to \<open>rmSync\<close> of the root, after which \<open>/tmp/a/f.txt\<close> is gone; what the call throws
  in the end is not \<open>Source cannot be inside target\<close>. With source \<open>/\<close> and target
  \<open>/tmp/b\<close>: target lies inside source, the validation returns normally, and the call
  removes \<open>/tmp/b\<close> with the \<open>g.txt\<close> in it; what it throws in the end is not
  \<open>Target cannot be inside source\<close>.
\<close>

theorem root_overlap_not_rejected:
  "statSync posix demo_world ''/tmp/a'' = Inr StatsDirectory
   \<and> path_resolve posix demo_world ''/tmp/a'' = ''/tmp/a''
   \<and> path_resolve posix demo_world ''/'' = ''/''
   \<and> lexical demo_world ''/'' = []
   \<and> lexical demo_world ''/tmp/a'' = [''tmp'', ''a'']
   \<and> snd (validatePaths posix ''/tmp/a'' ''/'' (initial_state demo_world)) = Inr ()
   \<and> snd (syncDirectory posix ''/tmp/a'' ''/''
        (setRsyncAvailable (Some False) (initial_state demo_world)))
       \<noteq> Inl (JsError ''Source cannot be inside target: /tmp/a is inside /'')
   \<and> EvRmSync ''/''
       \<in> set (trace (fst (syncDirectory posix ''/tmp/a'' ''/''
              (setRsyncAvailable (Some False) (initial_state demo_world)))))
   \<and> node_at (entries demo_world) [''tmp'', ''a'', ''f.txt''] = Some (FileE ''x'')
   \<and> node_at (entries (world (fst (syncDirectory posix ''/tmp/a'' ''/''
         (setRsyncAvailable (Some False) (initial_state demo_world))))))
         [''tmp'', ''a'', ''f.txt''] = None
   \<and> statSync posix demo_world ''/'' = Inr StatsDirectory
   \<and> lexical demo_world ''/tmp/b'' = [''tmp'', ''b'']
   \<and> snd (validatePaths posix ''/'' ''/tmp/b'' (initial_state demo_world)) = Inr ()
   \<and> snd (syncDirectory posix ''/'' ''/tmp/b''
        (setRsyncAvailable (Some False) (initial_state demo_world)))
       \<noteq> Inl (JsError ''Target cannot be inside source: /tmp/b is inside /'')
   \<and> EvRmSync ''/tmp/b''
       \<in> set (trace (fst (syncDirectory posix ''/'' ''/tmp/b''
              (setRsyncAvailable (Some False) (initial_state demo_world)))))
   \<and> node_at (entries demo_world) [''tmp'', ''b'', ''g.txt''] = Some (FileE ''y'')
   \<and> node_at (entries (world (fst (syncDirectory posix ''/'' ''/tmp/b''
         (setRsyncAvailable (Some False) (initial_state demo_world))))))
         [''tmp'', ''b'', ''g.txt''] = None"
  by code_simp

subsection \<open>Strategies\<close>

lemma removeTarget_trace: "prefix (trace s) (trace (fst (removeTarget P target s)))"
  by (simp add: removeTarget_def call_defs split: prod.splits sum.splits bool.splits)

lemma copyWithNodeFs_trace: "prefix (trace s) (trace (fst (copyWithNodeFs P source target s)))"
proof (cases "removeTarget P target s")
  case (Pair s1 r)
  then have "prefix (trace s) (trace s1)"
    using removeTarget_trace [of s P target] by simp
  then show ?thesis
    using Pair
    by (auto simp add: copyWithNodeFs_def call_defs prefix_def split: prod.splits sum.splits)
qed

lemma runFallback_trace: "prefix (trace s) (trace (fst (runFallback P source target s)))"
proof (cases "copyWithNodeFs P source target s")
  case (Pair s1 r)
  then have a: "prefix (trace s) (trace s1)"
    using copyWithNodeFs_trace [of s P source target] by simp
  have b: "prefix (trace s1) (trace (fst (removeTarget P target s1)))"
    by (rule removeTarget_trace)
  show ?thesis
  proof (cases r)
    case (Inl err)
    then show ?thesis
      using Pair prefix_order.trans [OF a b] by (simp add: runFallback_def)
  next
    case (Inr u)
    then show ?thesis
      using Pair a by (auto simp add: runFallback_def call_defs prefix_def)
  qed
qed

lemma copyWithRsync_success_trace:
  "copyWithRsync P source target s = (s', Inr u) \<Longrightarrow>
   trace s' = trace s @ [EvMkdirSync (path_dirname P target), EvRsync (source @ ''/'') (target @ ''/'')]"
  by (auto simp add: copyWithRsync_def call_defs split: prod.splits sum.splits if_splits)

lemma runFallback_result:
  "snd (runFallback P source target s)
     = (case snd (copyWithNodeFs P source target s) of
          Inr u \<Rightarrow> Inr \<lparr>method' = Fs\<rparr>
        | Inl err \<Rightarrow> Inl err)"
  by (simp add: runFallback_def split: prod.splits sum.splits)

text \<open>
  Claim C3. When the validation has passed, the tool is detected as available and
  \<open>copyWithRsync\<close> throws (the parent directory cannot be made, the tool throws, or
  it exits with a nonzero code), the call logs
  \<open>rsync failed, falling back to fs: <message>\<close> through the error sink and goes on
  with the fallback from there. What the caller gets is the fallback's outcome: \<open>fs\<close>
  when \<open>copyWithNodeFs\<close> returns, and the fallback's own thrown value otherwise.
\<close>

theorem rsync_failure_falls_back:
  assumes "validatePaths P source target s = (s1, Inr ())"
      and "detectRsync P s1 = (s2, True)"
      and "copyWithRsync P source target s2 = (s3, Inl err)"
  shows "syncDirectory P source target s
           = runFallback P source target
               (logError (''rsync failed, falling back to fs: '' @ errorMessage err) s3)
       \<and> EvLogError (''rsync failed, falling back to fs: '' @ errorMessage err)
           \<in> set (trace (fst (syncDirectory P source target s)))
       \<and> snd (syncDirectory P source target s)
           = (case snd (copyWithNodeFs P source target
                          (logError (''rsync failed, falling back to fs: '' @ errorMessage err) s3)) of
                Inr u \<Rightarrow> Inr \<lparr>method' = Fs\<rparr>
              | Inl fallbackErr \<Rightarrow> Inl fallbackErr)"
proof -
  let ?s = "logError (''rsync failed, falling back to fs: '' @ errorMessage err) s3"
  have run: "syncDirectory P source target s = runFallback P source target ?s"
    using assms by (simp add: syncDirectory_def runStrategies_def)
  have "EvLogError (''rsync failed, falling back to fs: '' @ errorMessage err) \<in> set (trace ?s)"
    by (simp add: call_defs)
  moreover have "set (trace ?s) \<subseteq> set (trace (fst (runFallback P source target ?s)))"
    by (rule set_mono_prefix [OF runFallback_trace])
  ultimately have logged: "EvLogError (''rsync failed, falling back to fs: '' @ errorMessage err)
      \<in> set (trace (fst (syncDirectory P source target s)))"
    using run by auto
  show ?thesis
    using run logged runFallback_result [of P source target ?s] by simp
qed

theorem rsync_failure_falls_back_witness:
  "snd (validatePaths posix ''/tmp/a'' ''/tmp/b'' (initial_state flaky_world)) = Inr ()
   \<and> snd (detectRsync posix (fst (validatePaths posix ''/tmp/a'' ''/tmp/b'' (initial_state flaky_world))))
   \<and> snd (copyWithRsync posix ''/tmp/a'' ''/tmp/b''
        (fst (detectRsync posix (fst (validatePaths posix ''/tmp/a'' ''/tmp/b'' (initial_state flaky_world))))))
       = Inl (JsError ''rsync failed: boom'')
   \<and> EvLogError ''rsync failed, falling back to fs: rsync failed: boom''
       \<in> set (trace (fst (syncDirectory posix ''/tmp/a'' ''/tmp/b'' (initial_state flaky_world))))
   \<and> snd (syncDirectory posix ''/tmp/a'' ''/tmp/b'' (initial_state flaky_world)) = Inr \<lparr>method' = Fs\<rparr>"
proof -
  define s1 where "s1 = fst (validatePaths posix ''/tmp/a'' ''/tmp/b'' (initial_state flaky_world))"
  define s2 where "s2 = fst (detectRsync posix s1)"
  define s3 where "s3 = fst (copyWithRsync posix ''/tmp/a'' ''/tmp/b'' s2)"
  have v: "snd (validatePaths posix ''/tmp/a'' ''/tmp/b'' (initial_state flaky_world)) = Inr ()"
    by code_simp
  have d: "snd (detectRsync posix s1)"
    unfolding s1_def by code_simp
  have c: "snd (copyWithRsync posix ''/tmp/a'' ''/tmp/b'' s2) = Inl (JsError ''rsync failed: boom'')"
    unfolding s2_def s1_def by code_simp
  have f: "snd (copyWithNodeFs posix ''/tmp/a'' ''/tmp/b''
             (logError (''rsync failed, falling back to fs: '' @ errorMessage (JsError ''rsync failed: boom'')) s3))
           = Inr ()"
    unfolding s3_def s2_def s1_def by code_simp
  have v': "validatePaths posix ''/tmp/a'' ''/tmp/b'' (initial_state flaky_world) = (s1, Inr ())"
    using v by (simp add: s1_def prod_eq_iff)
  have d': "detectRsync posix s1 = (s2, True)"
    using d by (simp add: s2_def prod_eq_iff)
  have c': "copyWithRsync posix ''/tmp/a'' ''/tmp/b'' s2 = (s3, Inl (JsError ''rsync failed: boom''))"
    using c by (simp add: s3_def prod_eq_iff)
  note fact = rsync_failure_falls_back [OF v' d' c']
  have logged: "EvLogError ''rsync failed, falling back to fs: rsync failed: boom''
       \<in> set (trace (fst (syncDirectory posix ''/tmp/a'' ''/tmp/b'' (initial_state flaky_world))))"
    using fact [THEN conjunct2, THEN conjunct1] by (simp add: errorMessage_def)
  have outcome: "snd (syncDirectory posix ''/tmp/a'' ''/tmp/b'' (initial_state flaky_world))
       = Inr \<lparr>method' = Fs\<rparr>"
    using fact [THEN conjunct2, THEN conjunct2] f by simp
  show ?thesis
    using v d c logged outcome by (simp add: s1_def s2_def)
qed

text \<open>
  Claim C4. When the fallback copy throws (reached because the tool is unavailable,
  or after the tool's failure), the call runs the cleanup and then throws the value
  that \<open>copyWithNodeFs\<close> threw, whatever the cleanup did. The cleanup asks whether
  target exists; if so it takes \<open>lstatSync(target)\<close> and calls \<open>unlinkSync\<close> for a
  symbolic link or a regular file and \<open>rmSync\<close> (recursive) for anything else. A
  value thrown by \<open>lstatSync\<close>, \<open>unlinkSync\<close> or \<open>rmSync\<close> there is dropped, and nothing
  is called after the cleanup.
\<close>

theorem fallback_failure_cleans_up:
  assumes "validatePaths P source target s = (s1, Inr ())"
      and "detectRsync P s1 = (s2, hasRsync)"
      and "hasRsync \<longrightarrow> copyWithRsync P source target s2 = (s3, Inl rsyncErr)"
      and "sf = (if hasRsync
                 then logError (''rsync failed, falling back to fs: '' @ errorMessage rsyncErr) s3
                 else s2)"
      and "copyWithNodeFs P source target sf = (s4, Inl err)"
  shows "syncDirectory P source target s = (fst (removeTarget P target s4), Inl err)
       \<and> fst (removeTarget P target s4)
           = (if \<not> existsSync P (world s4) target
              then record_event (EvExistsSync target) s4
              else case lstatSync P (world s4) target of
                     Inl cleanupErr \<Rightarrow>
                       record_event (EvLstatSync target) (record_event (EvExistsSync target) s4)
                   | Inr stat \<Rightarrow>
                       if isSymbolicLink stat \<or> isFile stat
                       then fst (fs_unlinkSync P target
                              (record_event (EvLstatSync target)
                                 (record_event (EvExistsSync target) s4)))
                       else fst (fs_rmSync P target
                              (record_event (EvLstatSync target)
                                 (record_event (EvExistsSync target) s4))))"
proof -
  have "runStrategies P source target s1 = runFallback P source target sf"
    using assms(2,3,4) by (cases hasRsync) (simp_all add: runStrategies_def)
  then have "syncDirectory P source target s = (fst (removeTarget P target s4), Inl err)"
    using assms(1,5) by (simp add: syncDirectory_def runFallback_def)
  moreover have "fst (removeTarget P target s4)
           = (if \<not> existsSync P (world s4) target
              then record_event (EvExistsSync target) s4
              else case lstatSync P (world s4) target of
                     Inl cleanupErr \<Rightarrow>
                       record_event (EvLstatSync target) (record_event (EvExistsSync target) s4)
                   | Inr stat \<Rightarrow>
                       if isSymbolicLink stat \<or> isFile stat
                       then fst (fs_unlinkSync P target
                              (record_event (EvLstatSync target)
                                 (record_event (EvExistsSync target) s4)))
                       else fst (fs_rmSync P target
                              (record_event (EvLstatSync target)
                                 (record_event (EvExistsSync target) s4))))"
    by (simp add: removeTarget_def fs_existsSync_def fs_lstatSync_def record_event_def
             split: sum.splits)
  ultimately show ?thesis by simp
qed

theorem fallback_failure_cleans_up_witness:
  "snd (validatePaths posix ''/tmp/a'' ''/tmp/b/c/..'' (initial_state clash_world)) = Inr ()
   \<and> \<not> snd (detectRsync posix
            (fst (validatePaths posix ''/tmp/a'' ''/tmp/b/c/..'' (initial_state clash_world))))
   \<and> snd (copyWithNodeFs posix ''/tmp/a'' ''/tmp/b/c/..''
        (fst (detectRsync posix
           (fst (validatePaths posix ''/tmp/a'' ''/tmp/b/c/..'' (initial_state clash_world))))))
       = Inl cp_clash
   \<and> snd (syncDirectory posix ''/tmp/a'' ''/tmp/b/c/..'' (initial_state clash_world))
       = Inl cp_clash
   \<and> EvRmSync ''/tmp/b/c/..''
       \<in> set (trace (fst (syncDirectory posix ''/tmp/a'' ''/tmp/b/c/..'' (initial_state clash_world))))
   \<and> node_at (entries (world (fst (syncDirectory posix ''/tmp/a'' ''/tmp/b/c/..''
         (initial_state clash_world))))) [''tmp'', ''b''] = Some DirE
   \<and> node_at (entries (world (fst (syncDirectory posix ''/tmp/a'' ''/tmp/b/c/..''
         (initial_state clash_world))))) [''tmp'', ''b'', ''c''] = None"
proof -
  define s1 where "s1 = fst (validatePaths posix ''/tmp/a'' ''/tmp/b/c/..'' (initial_state clash_world))"
  define s2 where "s2 = fst (detectRsync posix s1)"
  define s4 where "s4 = fst (copyWithNodeFs posix ''/tmp/a'' ''/tmp/b/c/..'' s2)"
  have v: "snd (validatePaths posix ''/tmp/a'' ''/tmp/b/c/..'' (initial_state clash_world)) = Inr ()"
    by code_simp
  have d: "\<not> snd (detectRsync posix s1)"
    unfolding s1_def by code_simp
  have c: "snd (copyWithNodeFs posix ''/tmp/a'' ''/tmp/b/c/..'' s2) = Inl cp_clash"
    unfolding s2_def s1_def by code_simp
  have v': "validatePaths posix ''/tmp/a'' ''/tmp/b/c/..'' (initial_state clash_world) = (s1, Inr ())"
    using v by (simp add: s1_def prod_eq_iff)
  have d': "detectRsync posix s1 = (s2, False)"
    using d by (simp add: s2_def prod_eq_iff)
  have c': "copyWithNodeFs posix ''/tmp/a'' ''/tmp/b/c/..'' s2 = (s4, Inl cp_clash)"
    using c by (simp add: s4_def prod_eq_iff)
  have untried: "False \<longrightarrow> copyWithRsync posix ''/tmp/a'' ''/tmp/b/c/..'' s2 = (s2, Inl (JsError []))"
    by simp
  have start: "s2 = (if False
      then logError (''rsync failed, falling back to fs: '' @ errorMessage (JsError [])) s2
      else s2)"
    by simp
  note fact = fallback_failure_cleans_up [OF v' d' untried start c']
  have thrown: "snd (syncDirectory posix ''/tmp/a'' ''/tmp/b/c/..'' (initial_state clash_world))
       = Inl cp_clash"
    using fact [THEN conjunct1] by simp
  have removed: "EvRmSync ''/tmp/b/c/..''
       \<in> set (trace (fst (syncDirectory posix ''/tmp/a'' ''/tmp/b/c/..'' (initial_state clash_world))))"
    by code_simp
  have kept: "node_at (entries (world (fst (syncDirectory posix ''/tmp/a'' ''/tmp/b/c/..''
         (initial_state clash_world))))) [''tmp'', ''b''] = Some DirE"
    by code_simp
  have gone: "node_at (entries (world (fst (syncDirectory posix ''/tmp/a'' ''/tmp/b/c/..''
         (initial_state clash_world))))) [''tmp'', ''b'', ''c''] = None"
    by code_simp
  show ?thesis
    using v d c thrown removed kept gone by (simp add: s1_def s2_def)
qed

text \<open>
  Claim C5. When the validation has passed and the tool is not available (which is
  the case whenever the cache was set to \<open>false\<close> before the call, and then nothing is
  probed), the call is the fallback: its outcome is never \<open>rsync\<close>, and it is \<open>fs\<close>
  when \<open>copyWithNodeFs\<close> returns. When the tool is available and \<open>copyWithRsync\<close>
  returns, the outcome is \<open>rsync\<close> and after the detection the call makes exactly three
  calls to the outside: \<open>mkdirSync\<close>, the tool, and the debug message for rsync; no
  call of the fallback is among them.
\<close>

theorem outcome_names_strategy:
  assumes "validatePaths P source target s = (s1, Inr ())"
      and "detectRsync P s1 = (s2, hasRsync)"
  shows "(\<not> hasRsync \<longrightarrow>
            syncDirectory P source target s = runFallback P source target s2
          \<and> snd (syncDirectory P source target s) \<noteq> Inr \<lparr>method' = Rsync\<rparr>
          \<and> (snd (copyWithNodeFs P source target s2) = Inr ()
               \<longrightarrow> snd (syncDirectory P source target s) = Inr \<lparr>method' = Fs\<rparr>))
       \<and> (rsyncAvailable s = Some False \<longrightarrow> \<not> hasRsync \<and> s2 = s1)
       \<and> (hasRsync \<and> copyWithRsync P source target s2 = (s3, Inr ()) \<longrightarrow>
            syncDirectory P source target s
              = (logDebug (copiedMessage source target ''rsync'') s3, Inr \<lparr>method' = Rsync\<rparr>)
          \<and> trace (fst (syncDirectory P source target s))
              = trace s2 @ [EvMkdirSync (path_dirname P target),
                            EvRsync (source @ ''/'') (target @ ''/''),
                            EvLogDebug (copiedMessage source target ''rsync'')])"
proof -
  have a: "syncDirectory P source target s = runFallback P source target s2" if "\<not> hasRsync"
    using assms that by (simp add: syncDirectory_def runStrategies_def)
  have b: "snd (runFallback P source target s2) \<noteq> Inr \<lparr>method' = Rsync\<rparr>"
    by (simp add: runFallback_result split: sum.splits)
  have c: "snd (runFallback P source target s2) = Inr \<lparr>method' = Fs\<rparr>"
    if "snd (copyWithNodeFs P source target s2) = Inr ()"
    using that by (simp add: runFallback_result)
  have d: "syncDirectory P source target s
              = (logDebug (copiedMessage source target ''rsync'') s3, Inr \<lparr>method' = Rsync\<rparr>)"
    if "hasRsync" and "copyWithRsync P source target s2 = (s3, Inr ())"
    using assms that by (simp add: syncDirectory_def runStrategies_def)
  have e: "trace (logDebug (copiedMessage source target ''rsync'') s3)
              = trace s2 @ [EvMkdirSync (path_dirname P target),
                            EvRsync (source @ ''/'') (target @ ''/''),
                            EvLogDebug (copiedMessage source target ''rsync'')]"
    if "copyWithRsync P source target s2 = (s3, Inr ())"
    using copyWithRsync_success_trace [OF that] by (simp add: call_defs)
  have f: "\<not> hasRsync \<and> s2 = s1" if "rsyncAvailable s = Some False"
  proof -
    have "rsyncAvailable s1 = Some False"
      using validatePaths_cache [of P source target s] assms(1) that by simp
    then show ?thesis
      using detectRsync_cached [of s1 False P] assms(2) by simp
  qed
  show ?thesis using a b c d e f by auto
qed

theorem outcome_names_strategy_witness:
  "rsyncAvailable (setRsyncAvailable (Some False) (initial_state demo_world)) = Some False
   \<and> snd (validatePaths posix ''/tmp/a'' ''/tmp/b''
        (setRsyncAvailable (Some False) (initial_state demo_world))) = Inr ()
   \<and> snd (syncDirectory posix ''/tmp/a'' ''/tmp/b''
        (setRsyncAvailable (Some False) (initial_state demo_world))) = Inr \<lparr>method' = Fs\<rparr>
   \<and> snd (validatePaths posix ''/tmp/a'' ''/tmp/b'' (initial_state demo_world)) = Inr ()
   \<and> snd (detectRsync posix (fst (validatePaths posix ''/tmp/a'' ''/tmp/b'' (initial_state demo_world))))
   \<and> snd (syncDirectory posix ''/tmp/a'' ''/tmp/b'' (initial_state demo_world))
       = Inr \<lparr>method' = Rsync\<rparr>
   \<and> trace (fst (syncDirectory posix ''/tmp/a'' ''/tmp/b'' (initial_state demo_world)))
       = [EvStatSync ''/tmp/a'', EvWhichRsync, EvMkdirSync ''/tmp'',
          EvRsync ''/tmp/a/'' ''/tmp/b/'', EvLogDebug (copiedMessage ''/tmp/a'' ''/tmp/b'' ''rsync'')]"
proof -
  define t0 where "t0 = setRsyncAvailable (Some False) (initial_state demo_world)"
  define t1 where "t1 = fst (validatePaths posix ''/tmp/a'' ''/tmp/b'' t0)"
  define t2 where "t2 = fst (detectRsync posix t1)"
  have forced: "rsyncAvailable t0 = Some False"
    by (simp add: t0_def setRsyncAvailable_def)
  have tv: "snd (validatePaths posix ''/tmp/a'' ''/tmp/b'' t0) = Inr ()"
    unfolding t0_def by code_simp
  have tv': "validatePaths posix ''/tmp/a'' ''/tmp/b'' t0 = (t1, Inr ())"
    using tv by (simp add: t1_def prod_eq_iff)
  have td': "detectRsync posix t1 = (t2, snd (detectRsync posix t1))"
    by (simp add: t2_def)
  have tc: "snd (copyWithNodeFs posix ''/tmp/a'' ''/tmp/b'' t2) = Inr ()"
    unfolding t2_def t1_def t0_def by code_simp
  note unavailable = outcome_names_strategy [OF tv' td', of t2]
  have off: "\<not> snd (detectRsync posix t1)"
    using unavailable forced by blast
  have fs: "snd (syncDirectory posix ''/tmp/a'' ''/tmp/b'' t0) = Inr \<lparr>method' = Fs\<rparr>"
    using unavailable off tc by blast
  define s1 where "s1 = fst (validatePaths posix ''/tmp/a'' ''/tmp/b'' (initial_state demo_world))"
  define s2 where "s2 = fst (detectRsync posix s1)"
  define s3 where "s3 = fst (copyWithRsync posix ''/tmp/a'' ''/tmp/b'' s2)"
  have v: "snd (validatePaths posix ''/tmp/a'' ''/tmp/b'' (initial_state demo_world)) = Inr ()"
    by code_simp
  have d: "snd (detectRsync posix s1)"
    unfolding s1_def by code_simp
  have c: "snd (copyWithRsync posix ''/tmp/a'' ''/tmp/b'' s2) = Inr ()"
    unfolding s2_def s1_def by code_simp
  have v': "validatePaths posix ''/tmp/a'' ''/tmp/b'' (initial_state demo_world) = (s1, Inr ())"
    using v by (simp add: s1_def prod_eq_iff)
  have d': "detectRsync posix s1 = (s2, True)"
    using d by (simp add: s2_def prod_eq_iff)
  have c': "copyWithRsync posix ''/tmp/a'' ''/tmp/b'' s2 = (s3, Inr ())"
    using c by (simp add: s3_def prod_eq_iff)
  note available = outcome_names_strategy [OF v' d', of s3]
  have rs: "snd (syncDirectory posix ''/tmp/a'' ''/tmp/b'' (initial_state demo_world))
       = Inr \<lparr>method' = Rsync\<rparr>"
    using available c' by simp
  have tr2: "trace s2 = [EvStatSync ''/tmp/a'', EvWhichRsync]"
    unfolding s2_def s1_def by code_simp
  have tr: "trace (fst (syncDirectory posix ''/tmp/a'' ''/tmp/b'' (initial_state demo_world)))
       = [EvStatSync ''/tmp/a'', EvWhichRsync, EvMkdirSync ''/tmp'',
          EvRsync ''/tmp/a/'' ''/tmp/b/'', EvLogDebug (copiedMessage ''/tmp/a'' ''/tmp/b'' ''rsync'')]"
  proof -
    have pd: "path_dirname posix ''/tmp/b'' = ''/tmp''" by code_simp
    have "trace (fst (syncDirectory posix ''/tmp/a'' ''/tmp/b'' (initial_state demo_world)))
       = trace s2 @ [EvMkdirSync (path_dirname posix ''/tmp/b''),
                     EvRsync (''/tmp/a'' @ ''/'') (''/tmp/b'' @ ''/''),
                     EvLogDebug (copiedMessage ''/tmp/a'' ''/tmp/b'' ''rsync'')]"
      using available c' by blast
    then show ?thesis
      using tr2 pd by simp
  qed
  show ?thesis
    using forced tv fs v d rs tr by (simp add: t0_def s1_def)
qed

subsection \<open>Paths in resolved form\<close>

lemma split_from_nonempty: "split_from acc p \<noteq> []"
  by (induction p arbitrary: acc) auto

lemma join_path_Cons: "cs \<noteq> [] \<Longrightarrow> join_path (c # cs) = c @ CHR ''/'' # join_path cs"
  by (cases cs) auto

lemma join_split_from: "join_path (split_from acc p) = rev acc @ p"
  by (induction p arbitrary: acc) (auto simp add: join_path_Cons split_from_nonempty)

lemma split_from_no_slash: "CHR ''/'' \<notin> set p \<Longrightarrow> split_from acc p = [rev acc @ p]"
  by (induction p arbitrary: acc) auto

lemma split_from_slash:
  "CHR ''/'' \<notin> set xs \<Longrightarrow> split_from acc (xs @ CHR ''/'' # ys) = (rev acc @ xs) # split_from [] ys"
  by (induction xs arbitrary: acc) auto

lemma split_from_components:
  "CHR ''/'' \<notin> set acc \<Longrightarrow> \<forall>c\<in>set (split_from acc p). CHR ''/'' \<notin> set c"
proof (induction p arbitrary: acc)
  case Nil
  then show ?case by simp
next
  case (Cons x p)
  show ?case
  proof (cases "x = CHR ''/''")
    case True
    then show ?thesis
      using Cons.IH [of "[]"] Cons.prems by simp
  next
    case False
    then show ?thesis
      using Cons.IH [of "x # acc"] Cons.prems by simp
  qed
qed

lemma split_join:
  "cs \<noteq> [] \<Longrightarrow> \<forall>c\<in>set cs. CHR ''/'' \<notin> set c \<Longrightarrow> split_from [] (join_path cs) = cs"
proof (induction cs rule: join_path.induct)
  case 1
  then show ?case by simp
next
  case (2 c)
  then show ?case by (simp add: split_from_no_slash)
next
  case (3 c d cs)
  then show ?case by (simp add: split_from_slash)
qed

lemma resolved_form_split:
  assumes "resolved_form p"
  shows "split_path p = [] # tl (split_path p)"
    and "tl (split_path p) \<noteq> []"
    and "p = CHR ''/'' # join_path (tl (split_path p))"
    and "\<forall>c\<in>set (tl (split_path p)). CHR ''/'' \<notin> set c"
proof -
  obtain rest where p: "p = CHR ''/'' # rest"
    using assms by (cases p) (auto simp add: resolved_form_def)
  show a: "split_path p = [] # tl (split_path p)"
    by (simp add: p split_path_def)
  show b: "tl (split_path p) \<noteq> []"
    by (simp add: p split_path_def split_from_nonempty)
  have "join_path (split_path p) = p"
    by (simp add: split_path_def join_split_from)
  then have "join_path ([] # tl (split_path p)) = p"
    using a by simp
  then show "p = CHR ''/'' # join_path (tl (split_path p))"
    using b by (simp add: join_path_Cons)
  show "\<forall>c\<in>set (tl (split_path p)). CHR ''/'' \<notin> set c"
    using split_from_components [of "[]" p] a
    by (metis empty_iff list.set(1) list.set_intros(2) split_path_def)
qed

lemma normalize_names: "list_all is_name cs \<Longrightarrow> normalize_path cur cs = cur @ cs"
  by (induction cs arbitrary: cur) (auto simp add: is_name_def)

lemma normalize_append: "normalize_path cur (cs @ ds) = normalize_path (normalize_path cur cs) ds"
  by (induction cs arbitrary: cur) auto

lemma walk_normalize: "walk es cur cs = Some q \<Longrightarrow> q = normalize_path cur cs"
  by (induction cs arbitrary: cur) (auto split: if_splits)

lemma resolved_form_lexical: "resolved_form p \<Longrightarrow> lexical w p = tl (split_path p)"
proof -
  assume r: "resolved_form p"
  then have "start_dir w p = []"
    by (simp add: resolved_form_def start_dir_def)
  moreover have "normalize_path [] (split_path p) = normalize_path [] (tl (split_path p))"
    using resolved_form_split(1) [OF r] by (metis normalize_path.simps(2))
  ultimately show ?thesis
    using r by (simp add: lexical_def normalize_names resolved_form_def)
qed

lemma walk_names:
  "list_all is_name cs \<Longrightarrow>
   walk es cur cs = (if \<forall>i<length cs. node_at es (cur @ take i cs) = Some DirE
                     then Some (cur @ cs) else None)"
proof (induction cs arbitrary: cur)
  case Nil
  then show ?case by simp
next
  case (Cons c cs)
  have n: "c \<noteq> [] \<and> c \<noteq> ''.'' \<and> c \<noteq> ''..''"
    using Cons.prems by (simp add: is_name_def)
  have rest: "list_all is_name cs"
    using Cons.prems by simp
  have split: "(\<forall>i<length (c # cs). node_at es (cur @ take i (c # cs)) = Some DirE)
      \<longleftrightarrow> node_at es cur = Some DirE \<and> (\<forall>i<length cs. node_at es ((cur @ [c]) @ take i cs) = Some DirE)"
    (is "?L \<longleftrightarrow> ?R")
  proof
    assume l: ?L
    have "node_at es cur = Some DirE" using l [rule_format, of 0] by simp
    moreover have "node_at es ((cur @ [c]) @ take i cs) = Some DirE" if "i < length cs" for i
      using l [rule_format, of "Suc i"] that by simp
    ultimately show ?R by simp
  next
    assume r: ?R
    show ?L
    proof (intro allI impI)
      fix i assume "i < length (c # cs)"
      then show "node_at es (cur @ take i (c # cs)) = Some DirE"
        using r by (cases i) auto
    qed
  qed
  show ?case
    using n Cons.IH [OF rest, of "cur @ [c]"] split by simp
qed

lemma join_path_snoc: "cs \<noteq> [] \<Longrightarrow> join_path (cs @ [c]) = join_path cs @ CHR ''/'' # c"
  by (induction cs rule: join_path.induct) auto

lemma join_path_nonempty: "cs \<noteq> [] \<Longrightarrow> hd cs \<noteq> [] \<Longrightarrow> join_path cs \<noteq> []"
  by (cases cs rule: join_path.cases) auto

lemma dropWhile_skip: "\<forall>x\<in>set xs. P x \<Longrightarrow> \<not> P y \<Longrightarrow> dropWhile P (xs @ y # ys) = y # ys"
  by (induction xs) auto

lemma dropWhile_keep: "xs \<noteq> [] \<Longrightarrow> \<not> P (hd xs) \<Longrightarrow> dropWhile P (xs @ ys) = xs @ ys"
  by (cases xs) auto

lemma resolved_form_last:
  assumes "resolved_form p"
  obtains front c where "tl (split_path p) = front @ [c]" and "c \<noteq> []" and "CHR ''/'' \<notin> set c"
    and "list_all is_name front" and "\<forall>d\<in>set front. CHR ''/'' \<notin> set d"
proof -
  have ne: "tl (split_path p) \<noteq> []" by (rule resolved_form_split(2) [OF assms])
  then obtain front c where t: "tl (split_path p) = front @ [c]"
    by (metis rev_exhaust)
  have "list_all is_name (front @ [c])"
    using assms t by (simp add: resolved_form_def)
  then have "c \<noteq> []" and "list_all is_name front"
    by (simp_all add: is_name_def)
  moreover have "CHR ''/'' \<notin> set c" and "\<forall>d\<in>set front. CHR ''/'' \<notin> set d"
    using resolved_form_split(4) [OF assms] t by simp_all
  ultimately show thesis using that t by blast
qed

lemma resolved_form_dirname:
  assumes "resolved_form p"
  shows "(length (tl (split_path p)) = 1 \<and> posix_dirname p = ''/'')
       \<or> (length (tl (split_path p)) \<noteq> 1
          \<and> posix_dirname p = CHR ''/'' # join_path (butlast (tl (split_path p))))"
proof -
  obtain front c where t: "tl (split_path p) = front @ [c]" and c: "c \<noteq> []" "CHR ''/'' \<notin> set c"
    and names: "list_all is_name front"
    using resolved_form_last [OF assms] by blast
  have p: "p = CHR ''/'' # join_path (front @ [c])"
    using resolved_form_split(3) [OF assms] t by simp
  have pne: "p \<noteq> []" and root: "hd p = CHR ''/''"
    using assms by (simp_all add: resolved_form_def)
  have hdc: "hd (rev c) \<noteq> CHR ''/''"
    using c by (metis hd_rev last_in_set)
  have nos: "\<forall>x\<in>set (rev c). x \<noteq> CHR ''/''"
    using c by auto
  show ?thesis
  proof (cases "front = []")
    case True
    have "tl p = c" by (subst p) (simp add: True)
    then have "dropWhile (\<lambda>x. x \<noteq> CHR ''/'') (dropWhile (\<lambda>x. x = CHR ''/'') (rev (tl p))) = []"
      using dropWhile_keep [of "rev c" "\<lambda>x. x = CHR ''/''" "[]"] c hdc nos by simp
    then have d: "posix_dirname p = ''/''"
      unfolding posix_dirname_def Let_def
      by (simp only: pne root if_True if_False refl)
    have l: "length (tl (split_path p)) = 1"
      using t True by simp
    show ?thesis by (rule disjI1, rule conjI, rule l, rule d)
  next
    case False
    have tlp: "tl p = join_path front @ CHR ''/'' # c"
      by (subst p) (simp add: False join_path_snoc)
    have "rev (tl p) = rev c @ CHR ''/'' # rev (join_path front)"
      using tlp by simp
    then have one: "dropWhile (\<lambda>x. x = CHR ''/'') (rev (tl p)) = rev c @ CHR ''/'' # rev (join_path front)"
      using dropWhile_keep [of "rev c" "\<lambda>x. x = CHR ''/''"] c hdc by simp
    have two: "dropWhile (\<lambda>x. x \<noteq> CHR ''/'') (rev c @ CHR ''/'' # rev (join_path front))
                 = CHR ''/'' # rev (join_path front)"
      using nos by (intro dropWhile_skip) simp_all
    have r: "dropWhile (\<lambda>x. x \<noteq> CHR ''/'') (dropWhile (\<lambda>x. x = CHR ''/'') (rev (tl p)))
                 = CHR ''/'' # rev (join_path front)"
      using one two by simp
    have "hd front \<noteq> []"
      using names False by (cases front) (simp_all add: is_name_def)
    then have jne: "join_path front \<noteq> []"
      using False by (simp add: join_path_nonempty)
    have tk: "take (Suc (length (join_path front))) p = CHR ''/'' # join_path front"
      by (subst p) (simp add: False join_path_snoc)
    have l1: "length (CHR ''/'' # rev (join_path front)) \<noteq> 1"
      using jne by simp
    have l2: "length (CHR ''/'' # rev (join_path front)) = Suc (length (join_path front))"
      by simp
    have ne: "CHR ''/'' # rev (join_path front) \<noteq> []"
      by simp
    have bl: "butlast (tl (split_path p)) = front"
      using t by simp
    have "posix_dirname p = CHR ''/'' # join_path front"
      unfolding posix_dirname_def Let_def r
      using l1 by (simp only: pne ne l2 tk if_False simp_thms)
    then have d: "posix_dirname p = CHR ''/'' # join_path (butlast (tl (split_path p)))"
      by (simp only: bl)
    have l: "length (tl (split_path p)) \<noteq> 1"
      using t False by simp
    show ?thesis by (rule disjI2, rule conjI, rule l, rule d)
  qed
qed

lemma split_path_root: "split_path ''/'' = [[], []]"
  by (simp add: split_path_def)

lemma split_path_rooted:
  assumes "cs \<noteq> []" and "\<forall>c\<in>set cs. CHR ''/'' \<notin> set c"
  shows "split_path (CHR ''/'' # join_path cs) = [] # cs"
proof -
  have "split_from [] (CHR ''/'' # join_path cs) = [] # split_from [] (join_path cs)"
    by simp
  then show ?thesis
    unfolding split_path_def using split_join [OF assms] by simp
qed

lemma resolved_form_dirname_split:
  assumes "resolved_form p"
  shows "split_path (posix_dirname p) = [] # butlast (tl (split_path p))
       \<or> (split_path (posix_dirname p) = [[], []] \<and> butlast (tl (split_path p)) = [])"
proof -
  obtain front c where t: "tl (split_path p) = front @ [c]" and "c \<noteq> []" and "CHR ''/'' \<notin> set c"
    and "list_all is_name front" and noslash: "\<forall>d\<in>set front. CHR ''/'' \<notin> set d"
    by (rule resolved_form_last [OF assms])
  have bl: "butlast (tl (split_path p)) = front"
    using t by simp
  from resolved_form_dirname [OF assms] show ?thesis
  proof (elim disjE conjE)
    assume l: "length (tl (split_path p)) = 1" and d: "posix_dirname p = ''/''"
    have e: "butlast (tl (split_path p)) = []"
      using l t by simp
    have r: "split_path (posix_dirname p) = [[], []]"
      by (simp only: d split_path_root)
    show ?thesis by (rule disjI2, rule conjI, rule r, rule e)
  next
    assume l: "length (tl (split_path p)) \<noteq> 1"
      and d: "posix_dirname p = CHR ''/'' # join_path (butlast (tl (split_path p)))"
    have fne: "front \<noteq> []"
      using l t by auto
    have "split_path (CHR ''/'' # join_path front) = [] # front"
      by (rule split_path_rooted [OF fne noslash])
    then have r: "split_path (posix_dirname p) = [] # butlast (tl (split_path p))"
      by (simp only: d bl)
    show ?thesis by (rule disjI1, rule r)
  qed
qed

lemma resolved_form_strip: 
  assumes "resolved_form p"
  shows "strip_slashes p = p" and "strip_slashes (p @ ''/'') = p"
proof -
  obtain front c where t: "tl (split_path p) = front @ [c]" and c: "c \<noteq> []" "CHR ''/'' \<notin> set c"
    using resolved_form_last [OF assms] by blast
  have p: "p = CHR ''/'' # join_path (front @ [c])"
    using resolved_form_split(3) [OF assms] t by simp
  have "\<exists>xs. p = xs @ c"
  proof (cases "front = []")
    case True
    then show ?thesis using p by simp
  next
    case False
    then show ?thesis using p by (simp add: join_path_snoc)
  qed
  then obtain xs where px: "p = xs @ c" by blast
  have hdc: "hd (rev c) \<noteq> CHR ''/''"
    using c by (metis hd_rev last_in_set)
  have keep: "dropWhile (\<lambda>x. x = CHR ''/'') (rev p) = rev p"
    using dropWhile_keep [of "rev c" "\<lambda>x. x = CHR ''/''" "rev xs"] c hdc px by simp
  have pne: "p \<noteq> []" using px c by simp
  show "strip_slashes p = p"
    using keep pne by (simp add: strip_slashes_def)
  show "strip_slashes (p @ ''/'') = p"
    using keep pne by (simp add: strip_slashes_def)
qed

lemma split_from_trailing: "split_from acc (p @ ''/'') = split_from acc p @ [[]]"
  by (induction p arbitrary: acc) auto

lemma lexical_trailing: "p \<noteq> [] \<Longrightarrow> lexical w (p @ ''/'') = lexical w p"
  by (simp add: lexical_def start_dir_def split_path_def split_from_trailing normalize_append)

lemma locate_lexical: "locate w p = Some q \<Longrightarrow> q = lexical w p"
  by (auto simp add: locate_def lexical_def dest: walk_normalize split: if_splits)

lemma locate_resolved:
  assumes "resolved_form p"
  shows "locate w p
           = (if \<forall>i<length (tl (split_path p)). node_at (entries w) (take i (tl (split_path p))) = Some DirE
              then Some (tl (split_path p)) else None)"
proof -
  have names: "list_all is_name (tl (split_path p))" and pne: "p \<noteq> []" and root: "hd p = CHR ''/''"
    using assms by (simp_all add: resolved_form_def)
  have "walk (entries w) [] (split_path p) = walk (entries w) [] (tl (split_path p))"
    using resolved_form_split(1) [OF assms]
    by (metis (full_types) node_at_def walk.simps(2))
  then show ?thesis
    using pne root walk_names [OF names, of "entries w" "[]"]
    by (simp add: locate_def start_dir_def)
qed

lemma wf_parent:
  "wf_entries es \<Longrightarrow> map_of es k = Some e \<Longrightarrow> k \<noteq> [] \<Longrightarrow> node_at es (butlast k) = Some DirE"
  by (auto simp add: wf_entries_def list_all_iff dest!: map_of_SomeD)

lemma wf_absent_below:
  assumes "wf_entries es" and "node_at es T = None"
  shows "map_of es (T @ q) = None"
proof (induction q rule: rev_induct)
  case Nil
  then show ?case using assms(2) by (simp add: node_at_def split: if_splits)
next
  case (snoc x q)
  show ?case
  proof (rule ccontr)
    assume "map_of es (T @ q @ [x]) \<noteq> None"
    then obtain e where "map_of es (T @ q @ [x]) = Some e" by auto
    then have "node_at es (butlast (T @ q @ [x])) = Some DirE"
      using wf_parent [OF assms(1)] by blast
    then have "node_at es (T @ q) = Some DirE"
      by (simp add: butlast_append)
    moreover have "T @ q \<noteq> []"
      using assms(2) by (auto simp add: node_at_def split: if_splits)
    ultimately show False using snoc.IH by (auto simp add: node_at_def split: if_splits)
  qed
qed

lemma wf_file_leaf:
  assumes "wf_entries es" and "node_at es T = Some (FileE c)"
  shows "q \<noteq> [] \<Longrightarrow> map_of es (T @ q) = None"
proof (induction q rule: rev_induct)
  case Nil
  then show ?case by simp
next
  case (snoc x q)
  show ?case
  proof (rule ccontr)
    assume "map_of es (T @ q @ [x]) \<noteq> None"
    then obtain e where "map_of es (T @ q @ [x]) = Some e" by auto
    then have "node_at es (butlast (T @ q @ [x])) = Some DirE"
      using wf_parent [OF assms(1)] by blast
    then have d: "node_at es (T @ q) = Some DirE"
      by (simp add: butlast_append)
    have tne: "T \<noteq> []"
      using assms(2) by (auto simp add: node_at_def split: if_splits)
    show False
    proof (cases "q = []")
      case True
      then show ?thesis using d assms(2) by simp
    next
      case False
      then show ?thesis using snoc.IH d tne by (auto simp add: node_at_def split: if_splits)
    qed
  qed
qed

lemma wf_ancestors:
  assumes "wf_entries es"
  shows "node_at es (k @ q) \<noteq> None \<Longrightarrow> q \<noteq> [] \<Longrightarrow> node_at es k = Some DirE"
proof (induction q rule: rev_induct)
  case Nil
  then show ?case by simp
next
  case (snoc x q)
  then obtain e where "map_of es (k @ q @ [x]) = Some e"
    by (auto simp add: node_at_def split: if_splits)
  then have "node_at es (butlast (k @ q @ [x])) = Some DirE"
    using wf_parent [OF assms] by blast
  then have d: "node_at es (k @ q) = Some DirE"
    by (simp add: butlast_append)
  show ?case
  proof (cases "q = []")
    case True
    then show ?thesis using d by simp
  next
    case False
    then show ?thesis using snoc.IH d by simp
  qed
qed

subsection \<open>The steps of a copy on the POSIX platform\<close>

lemma posix_fields [simp]:
  "statSync posix = posix_statSync" "existsSync posix = posix_existsSync"
  "lstatSync posix = posix_statSync" "unlinkSync posix = posix_unlinkSync"
  "rmSync posix = posix_rmSync" "mkdirSync posix = posix_mkdirSync"
  "cpSync posix = posix_cpSync" "path_resolve posix = posix_resolve"
  "path_dirname posix = posix_dirname" "path_sep posix = CHR ''/''"
  "sh_which_rsync posix = which_result" "sh_rsync posix = posix_rsync"
  by (simp_all add: posix_def)

lemma map_of_filter_key:
  "map_of (filter (\<lambda>ke. P (fst ke)) es) k = (if P k then map_of es k else None)"
  by (induction es) auto

lemma map_of_filter_other:
  "map_of (filter (\<lambda>ke. fst ke \<noteq> T) es) k = (if k \<noteq> T then map_of es k else None)"
  using map_of_filter_key [of "\<lambda>k. k \<noteq> T" es k] by simp

lemma map_of_filter_outside:
  "map_of (filter (\<lambda>ke. \<not> prefix T (fst ke)) es) k = (if prefix T k then None else map_of es k)"
  using map_of_filter_key [of "\<lambda>k. \<not> prefix T k" es k] by simp

lemma wf_reachable:
  assumes "wf_entries es" and "node_at es T \<noteq> None" and "i < length T"
  shows "node_at es (take i T) = Some DirE"
proof -
  have "node_at es (take i T @ drop i T) \<noteq> None" using assms(2) by simp
  moreover have "drop i T \<noteq> []" using assms(3) by simp
  ultimately show ?thesis by (rule wf_ancestors [OF assms(1)])
qed

lemma locate_resolved_present:
  assumes "resolved_form p" and "wf_entries (entries w)"
      and "node_at (entries w) (tl (split_path p)) \<noteq> None"
  shows "locate w p = Some (tl (split_path p))"
  using locate_resolved [OF assms(1), of w] wf_reachable [OF assms(2,3)] by simp

lemma posix_stat_resolved:
  assumes "resolved_form p" and "wf_entries (entries w)"
  shows "posix_statSync w p
           = (case node_at (entries w) (tl (split_path p)) of
                None \<Rightarrow> Inl (enoent p)
              | Some DirE \<Rightarrow> Inr StatsDirectory
              | Some (FileE c) \<Rightarrow> Inr StatsFile)"
proof (cases "node_at (entries w) (tl (split_path p))")
  case None
  then show ?thesis
    using locate_resolved [OF assms(1), of w]
    by (simp add: posix_statSync_def split: option.splits)
next
  case (Some e)
  then show ?thesis
    using locate_resolved_present [OF assms, of] by (simp add: posix_statSync_def)
qed

lemma last_component_resolved:
  assumes "resolved_form p"
  shows "is_name (last_component p)"
proof -
  obtain front c where t: "tl (split_path p) = front @ [c]" and c: "c \<noteq> []"
    and "CHR ''/'' \<notin> set c" and fr: "list_all is_name front"
    and "\<forall>d\<in>set front. CHR ''/'' \<notin> set d"
    by (rule resolved_form_last [OF assms])
  have "list_all is_name (tl (split_path p))"
    using assms by (simp add: resolved_form_def)
  then have nc: "is_name c"
    unfolding t by simp
  have sp: "split_path p = [] # front @ [c]"
    using resolved_form_split(1) [OF assms] unfolding t .
  have "filter (\<lambda>c. c \<noteq> []) front = front"
    using fr by (induction front) (simp_all add: is_name_def)
  then have "rev (filter (\<lambda>c. c \<noteq> []) (split_path p)) = c # rev front"
    unfolding sp using c by simp
  then show ?thesis
    using nc by (simp add: last_component_def)
qed

lemma posix_rmSync_cwd: "cwd (fst (posix_rmSync w p)) = cwd w"
  by (simp add: posix_rmSync_def Let_def split: option.splits entry.splits)

lemma posix_unlinkSync_cwd: "cwd (fst (posix_unlinkSync w p)) = cwd w"
  by (simp add: posix_unlinkSync_def split: option.splits entry.splits)

lemma posix_rmSync_resolved:
  assumes rf: "resolved_form p" and wf: "wf_entries (entries w)"
      and dir: "node_at (entries w) (tl (split_path p)) = Some DirE"
  shows "posix_rmSync w p
           = (w\<lparr>entries := filter (\<lambda>ke. \<not> prefix (tl (split_path p)) (fst ke)) (entries w)\<rparr>, Inr ())"
proof -
  let ?T = "tl (split_path p)"
  let ?below = "filter (\<lambda>ke. \<not> (prefix ?T (fst ke) \<and> fst ke \<noteq> ?T)) (entries w)"
  have loc: "locate w p = Some ?T"
    using locate_resolved_present [OF rf wf] dir by simp
  have tne: "?T \<noteq> []" by (rule resolved_form_split(2) [OF rf])
  have "node_at ?below (take i ?T) = Some DirE" if i: "i < length ?T" for i
  proof -
    have "node_at (entries w) (take i ?T) = Some DirE"
      using wf_reachable [OF wf _ i] dir by simp
    moreover have "\<not> prefix ?T (take i ?T)"
      using i prefix_length_le [of ?T "take i ?T"] by auto
    ultimately show ?thesis
      using map_of_filter_key [of "\<lambda>k. \<not> (prefix ?T k \<and> k \<noteq> ?T)" "entries w" "take i ?T"]
      by (auto simp add: node_at_def split: if_splits)
  qed
  then have loc1: "locate (w\<lparr>entries := ?below\<rparr>) p = Some ?T"
    using locate_resolved [OF rf, of "w\<lparr>entries := ?below\<rparr>"] by simp
  have nm: "last_component p \<noteq> ''..''" "last_component p \<noteq> ''.''"
    using last_component_resolved [OF rf] by (auto simp add: is_name_def)
  have fl: "filter (\<lambda>ke. fst ke \<noteq> ?T) ?below = filter (\<lambda>ke. \<not> prefix ?T (fst ke)) (entries w)"
    by (auto intro: filter_cong)
  have "posix_rmSync w p = (w\<lparr>entries := filter (\<lambda>ke. fst ke \<noteq> ?T) ?below\<rparr>, Inr ())"
    unfolding posix_rmSync_def Let_def using loc dir loc1 nm tne by simp
  then show ?thesis
    unfolding fl .
qed

lemma removeTarget_posix:
  assumes rf: "resolved_form target" and wf: "wf_entries (entries (world s))"
      and ok: "removeTarget posix target s = (s1, Inr u)"
  shows "map_of (entries (world s1)) (tl (split_path target) @ q) = None"
    and "\<not> prefix (tl (split_path target)) k \<Longrightarrow>
           map_of (entries (world s1)) k = map_of (entries (world s)) k"
    and "cwd (world s1) = cwd (world s)"
    and "rsyncAvailable s1 = rsyncAvailable s"
proof -
  let ?T = "tl (split_path target)"
  let ?es = "entries (world s)"
  have tne: "?T \<noteq> []" by (rule resolved_form_split(2) [OF rf])
  note st = posix_stat_resolved [OF rf wf]
  show "map_of (entries (world s1)) (?T @ q) = None"
  proof (cases "node_at ?es ?T")
    case None
    then have "world s1 = world s"
      using ok st by (auto simp add: removeTarget_def call_defs posix_existsSync_def split: if_splits)
    then show ?thesis using wf_absent_below [OF wf None] by simp
  next
    case (Some e)
    have loc: "locate (world s) target = Some ?T"
      using locate_resolved_present [OF rf wf] Some by simp
    show ?thesis
    proof (cases e)
      case (FileE c)
      then have "entries (world s1) = filter (\<lambda>ke. fst ke \<noteq> ?T) ?es"
        using ok st Some loc
        by (auto simp add: removeTarget_def call_defs posix_existsSync_def posix_unlinkSync_def
              isFile_def isSymbolicLink_def split: if_splits)
      then show ?thesis
        using wf_file_leaf [OF wf, of ?T c q] Some FileE
        by (simp add: map_of_filter_other)
    next
      case DirE
      then have "entries (world s1) = filter (\<lambda>ke. \<not> prefix ?T (fst ke)) ?es"
        using ok st Some loc posix_rmSync_resolved [OF rf wf]
        by (auto simp add: removeTarget_def call_defs posix_existsSync_def
              isFile_def isSymbolicLink_def split: if_splits)
      then show ?thesis
        by (simp add: map_of_filter_outside)
    qed
  qed
  show "map_of (entries (world s1)) k = map_of (entries (world s)) k" if np: "\<not> prefix ?T k"
  proof (cases "node_at ?es ?T")
    case None
    then have "world s1 = world s"
      using ok st by (auto simp add: removeTarget_def call_defs posix_existsSync_def split: if_splits)
    then show ?thesis by simp
  next
    case (Some e)
    have loc: "locate (world s) target = Some ?T"
      using locate_resolved_present [OF rf wf] Some by simp
    have kt: "k \<noteq> ?T" using np by auto
    show ?thesis
    proof (cases e)
      case (FileE c)
      then have "entries (world s1) = filter (\<lambda>ke. fst ke \<noteq> ?T) ?es"
        using ok st Some loc
        by (auto simp add: removeTarget_def call_defs posix_existsSync_def posix_unlinkSync_def
              isFile_def isSymbolicLink_def split: if_splits)
      then show ?thesis using kt by (simp add: map_of_filter_other)
    next
      case DirE
      then have "entries (world s1) = filter (\<lambda>ke. \<not> prefix ?T (fst ke)) ?es"
        using ok st Some loc posix_rmSync_resolved [OF rf wf]
        by (auto simp add: removeTarget_def call_defs posix_existsSync_def
              isFile_def isSymbolicLink_def split: if_splits)
      then show ?thesis using np by (simp add: map_of_filter_outside)
    qed
  qed
  show "cwd (world s1) = cwd (world s)"
    using ok posix_rmSync_cwd [of "world s" target] posix_unlinkSync_cwd [of "world s" target]
    by (auto simp add: removeTarget_def call_defs
          split: if_splits sum.splits bool.splits prod.splits)
  show "rsyncAvailable s1 = rsyncAvailable s"
    using removeTarget_cache [of posix target s] ok by simp
qed


lemma normalize_extends: "list_all (\<lambda>c. c \<noteq> ''..'') cs \<Longrightarrow> prefix cur (normalize_path cur cs)"
proof (induction cs arbitrary: cur)
  case Nil
  then show ?case by simp
next
  case (Cons c cs)
  then have "prefix (cur @ [c]) (normalize_path (cur @ [c]) cs)" by simp
  then have "prefix cur (normalize_path (cur @ [c]) cs)"
    using prefix_order.trans [of cur "cur @ [c]"] by simp
  then show ?case using Cons by simp
qed

lemma mkdirp_frame:
  assumes "mkdirp es cur cs = (es', ok)" and "list_all (\<lambda>c. c \<noteq> ''..'') cs"
      and "map_of es' k \<noteq> map_of es k"
  shows "map_of es k = None \<and> map_of es' k = Some DirE
       \<and> prefix cur k \<and> k \<noteq> cur \<and> prefix k (normalize_path cur cs)"
  using assms
proof (induction cs arbitrary: es cur)
  case Nil
  then show ?case by simp
next
  case (Cons c cs)
  have rest: "list_all (\<lambda>c. c \<noteq> ''..'') cs" and notup: "c \<noteq> ''..''"
    using Cons.prems(2) by simp_all
  show ?case
  proof (cases "c = [] \<or> c = ''.''")
    case True
    then have "mkdirp es cur cs = (es', ok)" using Cons.prems(1) by auto
    from Cons.IH [OF this rest Cons.prems(3)] show ?thesis using True by auto
  next
    case False
    have ext: "prefix (cur @ [c]) (normalize_path (cur @ [c]) cs)"
      by (rule normalize_extends [OF rest])
    show ?thesis
    proof (cases "node_at es (cur @ [c])")
      case None
      then have run: "mkdirp ((cur @ [c], DirE) # es) (cur @ [c]) cs = (es', ok)"
        using Cons.prems(1) False notup by simp
      have absent: "map_of es (cur @ [c]) = None"
        using None by (simp add: node_at_def)
      show ?thesis
      proof (cases "map_of es' k = map_of ((cur @ [c], DirE) # es) k")
        case True
        then have "k = cur @ [c]" using Cons.prems(3) by (auto split: if_splits)
        then show ?thesis
          using True absent ext False notup by simp
      next
        case False
        from Cons.IH [OF run rest False]
        have "map_of ((cur @ [c], DirE) # es) k = None" and "map_of es' k = Some DirE"
          and "prefix (cur @ [c]) k" and "k \<noteq> cur @ [c]"
          and "prefix k (normalize_path (cur @ [c]) cs)"
          by (auto split: if_splits)
        then show ?thesis
          using \<open>\<not> (c = [] \<or> c = ''.'')\<close> notup
          by (auto simp add: prefix_def split: if_splits)
      qed
    next
      case (Some e)
      show ?thesis
      proof (cases e)
        case (FileE x)
        then have "es' = es" using Cons.prems(1) Some False notup by simp
        then show ?thesis using Cons.prems(3) by simp
      next
        case DirE
        then have run: "mkdirp es (cur @ [c]) cs = (es', ok)"
          using Cons.prems(1) Some False notup by simp
        from Cons.IH [OF run rest Cons.prems(3)]
        show ?thesis
          using False notup by (auto simp add: prefix_def)
      qed
    qed
  qed
qed

lemma mkdirp_made:
  assumes "mkdirp es cur cs = (es', True)" and "list_all (\<lambda>c. c \<noteq> ''..'') cs"
      and "prefix cur k" and "k \<noteq> cur" and "prefix k (normalize_path cur cs)"
  shows "node_at es' k = Some DirE"
  using assms
proof (induction cs arbitrary: es cur)
  case Nil
  then show ?case by auto
next
  case (Cons c cs)
  have rest: "list_all (\<lambda>c. c \<noteq> ''..'') cs" and notup: "c \<noteq> ''..''"
    using Cons.prems(2) by simp_all
  show ?case
  proof (cases "c = [] \<or> c = ''.''")
    case True
    then have "mkdirp es cur cs = (es', True)" using Cons.prems(1) by auto
    from Cons.IH [OF this rest Cons.prems(3,4)] show ?thesis
      using True Cons.prems(5) by auto
  next
    case False
    have norm: "normalize_path cur (c # cs) = normalize_path (cur @ [c]) cs"
      using False notup by simp
    have ext: "prefix (cur @ [c]) (normalize_path (cur @ [c]) cs)"
      by (rule normalize_extends [OF rest])
    have below: "prefix (cur @ [c]) k"
    proof -
      obtain q where q: "k = cur @ q" using Cons.prems(3) by (auto simp add: prefix_def)
      then have "q \<noteq> []" using Cons.prems(4) by auto
      then obtain x q' where q': "q = x # q'" by (cases q) auto
      have "prefix (cur @ x # q') (normalize_path (cur @ [c]) cs)"
        using Cons.prems(5) norm q q' by simp
      moreover obtain r where "normalize_path (cur @ [c]) cs = (cur @ [c]) @ r"
        using ext by (auto simp add: prefix_def)
      ultimately have "x = c" by (auto simp add: prefix_def)
      then show ?thesis using q q' by (simp add: prefix_def)
    qed
    obtain es1 where run: "mkdirp es1 (cur @ [c]) cs = (es', True)"
      and here: "node_at es1 (cur @ [c]) = Some DirE"
    proof (cases "node_at es (cur @ [c])")
      case None
      then have "mkdirp ((cur @ [c], DirE) # es) (cur @ [c]) cs = (es', True)"
        using Cons.prems(1) False notup by simp
      moreover have "node_at ((cur @ [c], DirE) # es) (cur @ [c]) = Some DirE"
        by (simp add: node_at_def)
      ultimately show ?thesis using that by blast
    next
      case (Some e)
      then have "e = DirE \<and> mkdirp es (cur @ [c]) cs = (es', True)"
        using Cons.prems(1) False notup by (cases e) simp_all
      then show ?thesis using that Some by blast
    qed
    show ?thesis
    proof (cases "k = cur @ [c]")
      case True
      have "map_of es' k = map_of es1 k"
        using mkdirp_frame [OF run rest, of k] True by blast
      then show ?thesis using here True by (simp add: node_at_def)
    next
      case False
      show ?thesis
        using Cons.IH [OF run rest below False] Cons.prems(5) norm by simp
    qed
  qed
qed


lemma wf_entries_add_dir:
  assumes "wf_entries es" and "node_at es cur = Some DirE"
  shows "wf_entries ((cur @ [c], DirE) # es)"
proof -
  have "node_at ((cur @ [c], DirE) # es) (butlast k) = Some DirE"
    if "node_at es (butlast k) = Some DirE" for k
    using that by (auto simp add: node_at_def split: if_splits)
  then have "list_all (\<lambda>ke. fst ke = [] \<or> node_at ((cur @ [c], DirE) # es) (butlast (fst ke)) = Some DirE) es"
    using assms(1) by (auto simp add: wf_entries_def list_all_iff)
  moreover have "node_at ((cur @ [c], DirE) # es) (butlast (cur @ [c])) = Some DirE"
    using assms(2) by (auto simp add: node_at_def butlast_append split: if_splits)
  ultimately show ?thesis by (simp add: wf_entries_def)
qed

lemma mkdirp_wf:
  assumes "wf_entries es" and "node_at es cur = Some DirE" and "list_all (\<lambda>c. c \<noteq> ''..'') cs"
  shows "wf_entries (fst (mkdirp es cur cs))"
  using assms
proof (induction cs arbitrary: es cur)
  case Nil
  then show ?case by simp
next
  case (Cons c cs)
  have rest: "list_all (\<lambda>c. c \<noteq> ''..'') cs" and notup: "c \<noteq> ''..''"
    using Cons.prems(3) by simp_all
  show ?case
  proof (cases "c = [] \<or> c = ''.''")
    case True
    then show ?thesis using Cons.IH [OF Cons.prems(1,2) rest] by auto
  next
    case False
    show ?thesis
    proof (cases "node_at es (cur @ [c])")
      case None
      have "wf_entries ((cur @ [c], DirE) # es)"
        by (rule wf_entries_add_dir [OF Cons.prems(1,2)])
      moreover have "node_at ((cur @ [c], DirE) # es) (cur @ [c]) = Some DirE"
        by (simp add: node_at_def)
      ultimately have "wf_entries (fst (mkdirp ((cur @ [c], DirE) # es) (cur @ [c]) cs))"
        using Cons.IH rest by blast
      then show ?thesis using None False notup by simp
    next
      case (Some e)
      show ?thesis
      proof (cases e)
        case (FileE x)
        then show ?thesis using Some False notup Cons.prems(1) by simp
      next
        case DirE
        then have "wf_entries (fst (mkdirp es (cur @ [c]) cs))"
          using Cons.IH [OF Cons.prems(1) _ rest, of "cur @ [c]"] Some by simp
        then show ?thesis using Some DirE False notup by simp
      qed
    qed
  qed
qed

lemma resolved_form_parent_walk:
  assumes rf: "resolved_form target"
  shows "posix_dirname target \<noteq> []" and "hd (posix_dirname target) = CHR ''/''"
    and "list_all (\<lambda>c. c \<noteq> ''..'') (split_path (posix_dirname target))"
    and "normalize_path [] (split_path (posix_dirname target)) = butlast (tl (split_path target))"
proof -
  have names: "list_all is_name (butlast (tl (split_path target)))"
    using rf by (auto simp add: resolved_form_def list_all_iff dest: in_set_butlastD)
  then have nodd: "list_all (\<lambda>c. c \<noteq> ''..'') (butlast (tl (split_path target)))"
    by (auto simp add: list_all_iff is_name_def)
  from resolved_form_dirname [OF rf]
  show "posix_dirname target \<noteq> []" and "hd (posix_dirname target) = CHR ''/''"
    by auto
  from resolved_form_dirname_split [OF rf]
  show "list_all (\<lambda>c. c \<noteq> ''..'') (split_path (posix_dirname target))"
    using nodd by auto
  from resolved_form_dirname_split [OF rf]
  show "normalize_path [] (split_path (posix_dirname target)) = butlast (tl (split_path target))"
    using normalize_names [OF names, of "[]"] by auto
qed

lemma posix_mkdirSync_parent:
  assumes rf: "resolved_form target"
  shows "posix_mkdirSync w (posix_dirname target)
           = (case mkdirp (entries w) [] (split_path (posix_dirname target)) of
                (es, True) \<Rightarrow> (w\<lparr>entries := es\<rparr>, Inr ())
              | (es, False) \<Rightarrow>
                  (w\<lparr>entries := es\<rparr>,
                   Inl (JsError (''EEXIST: file already exists, '' @ posix_dirname target))))"
proof -
  note pw = resolved_form_parent_walk [OF rf]
  have start: "start_dir w (posix_dirname target) = []"
    using pw(1,2) by (simp add: start_dir_def)
  have root: "node_at (entries w) [] = Some DirE"
    by (simp add: node_at_def)
  show ?thesis
    unfolding posix_mkdirSync_def start
    using pw(1) root by (simp only: if_False simp_thms)
qed

lemma take_prefix_butlast: "i < length xs \<Longrightarrow> prefix (take i xs) (butlast xs)"
proof -
  assume "i < length xs"
  then have "take i xs = take i (butlast xs)"
    by (simp add: butlast_conv_take min_def)
  then show ?thesis by (simp add: take_is_prefix)
qed

lemma mkdir_parent_posix:
  assumes rf: "resolved_form target"
      and ok: "fs_mkdirSync posix (posix_dirname target) s = (s', r)"
  shows "map_of (entries (world s')) k \<noteq> map_of (entries (world s)) k \<Longrightarrow>
           map_of (entries (world s)) k = None \<and> prefix k (butlast (tl (split_path target)))"
    and "r = Inr u \<Longrightarrow> i < length (tl (split_path target)) \<Longrightarrow>
           node_at (entries (world s')) (take i (tl (split_path target))) = Some DirE"
    and "cwd (world s') = cwd (world s)"
    and "rsync_runs (world s') = rsync_runs (world s)"
    and "rsyncAvailable s' = rsyncAvailable s"
    and "wf_entries (entries (world s)) \<Longrightarrow> wf_entries (entries (world s'))"
proof -
  let ?p = "posix_dirname target"
  let ?es = "entries (world s)"
  note pw = resolved_form_parent_walk [OF rf]
  have root: "node_at ?es [] = Some DirE"
    by (simp add: node_at_def)
  obtain es' made where run: "mkdirp ?es [] (split_path ?p) = (es', made)"
    by (cases "mkdirp ?es [] (split_path ?p)")
  have step: "posix_mkdirSync (world s) ?p
      = ((world s)\<lparr>entries := es'\<rparr>,
         if made then Inr () else Inl (JsError (''EEXIST: file already exists, '' @ ?p)))"
    unfolding posix_mkdirSync_parent [OF rf] run by simp
  have w': "world s' = (world s)\<lparr>entries := es'\<rparr>"
    using ok unfolding fs_mkdirSync_def posix_fields step by auto
  have res: "made" if "r = Inr u"
    using ok that unfolding fs_mkdirSync_def posix_fields step by (auto split: if_splits)
  show "map_of (entries (world s)) k = None \<and> prefix k (butlast (tl (split_path target)))"
    if "map_of (entries (world s')) k \<noteq> map_of (entries (world s)) k"
  proof -
    have "map_of es' k \<noteq> map_of ?es k" using that w' by simp
    from mkdirp_frame [OF run pw(3) this] show ?thesis
      unfolding pw(4) by blast
  qed
  show "node_at (entries (world s')) (take i (tl (split_path target))) = Some DirE"
    if "r = Inr u" and i: "i < length (tl (split_path target))"
  proof (cases "take i (tl (split_path target)) = []")
    case True
    then show ?thesis by (simp add: node_at_def)
  next
    case False
    have run': "mkdirp ?es [] (split_path ?p) = (es', True)"
      using run res [OF that(1)] by simp
    have "prefix (take i (tl (split_path target))) (normalize_path [] (split_path ?p))"
      unfolding pw(4) by (rule take_prefix_butlast [OF i])
    then have "node_at es' (take i (tl (split_path target))) = Some DirE"
      using False by (intro mkdirp_made [OF run' pw(3)]) simp_all
    then show ?thesis using w' by simp
  qed
  show "cwd (world s') = cwd (world s)" and "rsync_runs (world s') = rsync_runs (world s)"
    using w' by simp_all
  show "rsyncAvailable s' = rsyncAvailable s"
    using ok by (auto simp add: fs_mkdirSync_def record_event_def split: prod.splits)
  show "wf_entries (entries (world s'))" if "wf_entries (entries (world s))"
    using mkdirp_wf [OF that root pw(3)] run w' by simp
qed


lemma map_of_subtree_copy: "map_of (subtree_copy es S T) (T @ q) = map_of es (S @ q)"
proof (induction es)
  case Nil
  then show ?case by (simp add: subtree_copy_def)
next
  case (Cons ke es)
  show ?case
  proof (cases "prefix S (fst ke)")
    case True
    then obtain q' where k: "fst ke = S @ q'" by (auto simp add: prefix_def)
    then have "subtree_copy (ke # es) S T = (T @ q', snd ke) # subtree_copy es S T"
      by (simp add: subtree_copy_def)
    then show ?thesis using Cons k by (cases ke) auto
  next
    case False
    then have "subtree_copy (ke # es) S T = subtree_copy es S T"
      by (simp add: subtree_copy_def)
    moreover have "fst ke \<noteq> S @ q" using False by auto
    ultimately show ?thesis using Cons by (cases ke) auto
  qed
qed

lemma map_of_subtree_copy_outside: "\<not> prefix T k \<Longrightarrow> map_of (subtree_copy es S T) k = None"
  by (induction es) (auto simp add: subtree_copy_def)

lemma disjoint_paths:
  assumes "\<not> prefix S T" and "\<not> prefix T S"
  shows "\<not> prefix T (S @ q)" and "S @ q \<noteq> T" and "\<not> prefix (S @ q) T"
proof -
  show "\<not> prefix T (S @ q)"
    using assms by (metis prefix_same_cases prefixI)
  show "S @ q \<noteq> T" using assms(1) by auto
  show "\<not> prefix (S @ q) T" using assms(1) by (auto simp add: prefix_def)
qed

lemma copied_contents:
  assumes "\<forall>q. map_of X (T @ q) = None" and "q \<noteq> []"
  shows "map_of ((T, DirE) # subtree_copy es S T @ X) (T @ q) = map_of es (S @ q)"
  using assms by (simp add: map_add_def map_of_subtree_copy split: option.splits)

lemma kept_contents:
  assumes "\<not> prefix T k"
  shows "map_of ((T, DirE) # subtree_copy es S T @ X) k = map_of X k"
proof -
  have "k \<noteq> T" using assms by auto
  then show ?thesis
    using assms by (simp add: map_add_def map_of_subtree_copy_outside)
qed

lemma prefix_positions_butlast:
  assumes "T \<noteq> []" and "\<forall>i<length T. P (take i T)"
  shows "P (butlast T)"
proof -
  have "length T - 1 < length T" using assms(1) by simp
  then have "P (take (length T - 1) T)" using assms(2) by blast
  then show ?thesis by (simp add: butlast_conv_take)
qed

lemma exists_parent:
  assumes rf: "resolved_form target"
      and parents: "\<forall>i<length (tl (split_path target)). node_at (entries w) (take i (tl (split_path target))) = Some DirE"
  shows "posix_existsSync w (posix_dirname target)"
proof -
  let ?T = "tl (split_path target)"
  let ?p = "posix_dirname target"
  note pw = resolved_form_parent_walk [OF rf]
  have tne: "?T \<noteq> []" by (rule resolved_form_split(2) [OF rf])
  have names: "list_all is_name (butlast ?T)"
    using rf by (auto simp add: resolved_form_def list_all_iff dest: in_set_butlastD)
  have bl: "butlast ?T = take (length ?T - 1) ?T"
    by (simp add: butlast_conv_take)
  have dirs: "\<forall>i<length (butlast ?T). node_at (entries w) ([] @ take i (butlast ?T)) = Some DirE"
  proof (intro allI impI)
    fix i assume "i < length (butlast ?T)"
    then have il: "i < length ?T" by simp
    then have "take i (butlast ?T) = take i ?T" by (rule take_butlast)
    then show "node_at (entries w) ([] @ take i (butlast ?T)) = Some DirE"
      using parents il by simp
  qed
  have wn: "walk (entries w) [] (butlast ?T) = Some (butlast ?T)"
    using walk_names [OF names, of "entries w" "[]"] dirs by simp
  have root: "node_at (entries w) [] = Some DirE" by (simp add: node_at_def)
  have "walk (entries w) [] (split_path ?p) = Some (butlast ?T)"
    using resolved_form_dirname_split [OF rf] wn root by (elim disjE conjE) simp_all
  moreover have "start_dir w ?p = []"
    using pw(1,2) by (simp add: start_dir_def)
  ultimately have loc: "locate w ?p = Some (butlast ?T)"
    using pw(1) by (simp add: locate_def)
  have "node_at (entries w) (butlast ?T) = Some DirE"
    by (rule prefix_positions_butlast [OF tne parents])
  then show ?thesis
    using loc by (simp add: posix_existsSync_def posix_statSync_def)
qed

lemma cp_posix:
  assumes rf: "resolved_form target"
      and absent: "\<forall>q. map_of (entries (world s)) (tl (split_path target) @ q) = None"
      and parents: "\<forall>i<length (tl (split_path target)).
                      node_at (entries (world s)) (take i (tl (split_path target))) = Some DirE"
      and sd: "node_at (entries (world s)) (lexical (world s) source) = Some DirE"
      and apart: "\<not> prefix (lexical (world s) source) (tl (split_path target))"
      and ok: "fs_cpSync posix source target s = (s', Inr u)"
  shows "entries (world s')
           = (tl (split_path target), DirE)
             # subtree_copy (entries (world s)) (lexical (world s) source) (tl (split_path target))
             @ entries (world s)"
    and "cwd (world s') = cwd (world s)"
proof -
  let ?T = "tl (split_path target)"
  let ?S = "lexical (world s) source"
  let ?w = "world s"
  have tne: "?T \<noteq> []" by (rule resolved_form_split(2) [OF rf])
  have strip: "strip_slashes target = target" by (rule resolved_form_strip(1) [OF rf])
  have lt: "locate ?w target = Some ?T"
    using locate_resolved [OF rf, of ?w] parents by simp
  have dest: "node_at (entries ?w) ?T = None"
    using absent [rule_format, of "[]"] tne by (simp add: node_at_def)
  have lex: "lexical ?w target = ?T" by (rule resolved_form_lexical [OF rf])
  have par: "posix_existsSync ?w (posix_dirname target)"
    by (rule exists_parent [OF rf parents])
  obtain w' r where cp: "posix_cpSync ?w source target = (w', r)"
    by (cases "posix_cpSync ?w source target")
  then have r: "r = Inr u" and w': "world s' = w'"
    using ok by (auto simp add: fs_cpSync_def record_event_def)
  have ls: "locate ?w source = Some ?S"
  proof (cases "locate ?w source")
    case None
    then show ?thesis using cp r by (simp add: posix_cpSync_def)
  next
    case (Some S')
    then show ?thesis using locate_lexical [OF Some] by simp
  qed
  have "w' = ?w\<lparr>entries := (?T, DirE) # subtree_copy (entries ?w) ?S ?T @ entries ?w\<rparr>"
    using cp r ls sd strip lt dest lex par apart
    by (auto simp add: posix_cpSync_def Let_def is_file_def is_dir_def split: if_splits)
  then show "entries (world s')
           = (?T, DirE) # subtree_copy (entries (world s)) ?S ?T @ entries (world s)"
    and "cwd (world s') = cwd (world s)"
    using w' by simp_all
qed


lemma locate_cong: "entries w' = entries w \<Longrightarrow> cwd w' = cwd w \<Longrightarrow> locate w' p = locate w p"
  by (simp add: locate_def start_dir_def)

lemma lexical_cong: "cwd w' = cwd w \<Longrightarrow> lexical w' p = lexical w p"
  by (simp add: lexical_def start_dir_def)

lemma rsync_failed_code: "exitCode rsync_failed \<noteq> 0"
  by (simp add: rsync_failed_def)

lemma posix_rsync_cases:
  assumes "posix_rsync w a b = (w', r)"
  shows "(entries w' = entries w \<and> cwd w' = cwd w
          \<and> (case r of Inl err \<Rightarrow> True | Inr out \<Rightarrow> exitCode out \<noteq> 0))
       \<or> (\<exists>w0 out. entries w0 = entries w \<and> cwd w0 = cwd w
            \<and> rsync_mirror w0 a b = (w', Inr out) \<and> r = Inr out \<and> exitCode out = 0)"
proof -
  have mirror: "(entries w' = entries w0 \<and> cwd w' = cwd w0 \<and> exitCode out \<noteq> 0)
      \<or> exitCode out = 0"
    if "rsync_mirror w0 a b = (w', Inr out)" for w0 out
    using that rsync_failed_code
    by (auto simp add: rsync_mirror_def split: option.splits if_splits)
  have shape: "\<exists>out. r' = Inr out" if "rsync_mirror w0 a b = (w', r')" for w0 r'
    using that by (auto simp add: rsync_mirror_def split: option.splits if_splits)
  show ?thesis
  proof (cases "rsync_runs w")
    case Nil
    then have m: "rsync_mirror w a b = (w', r)" using assms by (simp add: posix_rsync_def)
    then obtain out where r: "r = Inr out" using shape by blast
    show ?thesis using mirror [of w out] m r by auto
  next
    case (Cons x rest)
    show ?thesis
    proof (cases x)
      case (Inl err)
      then show ?thesis using assms Cons by (auto simp add: posix_rsync_def)
    next
      case (Inr out0)
      show ?thesis
      proof (cases "exitCode out0 = 0")
        case True
        then have m: "rsync_mirror (w\<lparr>rsync_runs := rest\<rparr>) a b = (w', r)"
          using assms Cons Inr by (simp add: posix_rsync_def)
        then obtain out where r: "r = Inr out" using shape by blast
        show ?thesis using mirror [of "w\<lparr>rsync_runs := rest\<rparr>" out] m r by auto
      next
        case False
        then show ?thesis using assms Cons Inr by (auto simp add: posix_rsync_def)
      qed
    qed
  qed
qed

lemma rsync_mirror_posix:
  assumes rf: "resolved_form target" and srcne: "source \<noteq> []"
      and apart: "\<not> prefix (lexical w source) (tl (split_path target))"
      and ok: "rsync_mirror w (source @ ''/'') (target @ ''/'') = (w', Inr out)"
      and exit: "exitCode out = 0"
  shows "entries w'
           = (tl (split_path target), DirE)
             # subtree_copy (entries w) (lexical w source) (tl (split_path target))
             @ filter (\<lambda>ke. \<not> prefix (tl (split_path target)) (fst ke)) (entries w)"
    and "cwd w' = cwd w"
proof -
  let ?T = "tl (split_path target)"
  let ?S = "lexical w source"
  have strip: "strip_slashes (target @ ''/'') = target" by (rule resolved_form_strip(2) [OF rf])
  obtain S' T' where ls: "locate w (source @ ''/'') = Some S'" and lt: "locate w target = Some T'"
    using ok exit rsync_failed_code strip
    by (auto simp add: rsync_mirror_def split: option.splits)
  have S': "S' = ?S"
    using locate_lexical [OF ls] lexical_trailing [OF srcne, of w] by simp
  have T': "T' = ?T"
    using locate_lexical [OF lt] resolved_form_lexical [OF rf, of w] by simp
  have ne: "?S \<noteq> ?T" using apart by auto
  have "w' = w\<lparr>entries := (?T, DirE) # subtree_copy (entries w) ?S ?T
                  @ filter (\<lambda>ke. \<not> prefix ?T (fst ke)) (entries w)\<rparr>"
    using ok exit rsync_failed_code strip ls lt S' T' ne
    by (auto simp add: rsync_mirror_def split: if_splits)
  then show "entries w'
           = (?T, DirE) # subtree_copy (entries w) ?S ?T
             @ filter (\<lambda>ke. \<not> prefix ?T (fst ke)) (entries w)"
    and "cwd w' = cwd w"
    by simp_all
qed

lemma below_parent_unchanged:
  assumes "\<not> prefix S T" 
  shows "\<not> prefix (S @ q) (butlast T)"
proof
  assume "prefix (S @ q) (butlast T)"
  then have "prefix S (butlast T)" by (auto simp add: prefix_def)
  moreover have "prefix (butlast T) T" by (rule prefixeq_butlast)
  ultimately show False using assms prefix_order.trans by blast
qed

lemma not_below_own_parent: "T \<noteq> [] \<Longrightarrow> \<not> prefix (T @ q) (butlast T)"
proof
  assume "T \<noteq> []" and "prefix (T @ q) (butlast T)"
  then have "length (T @ q) \<le> length (butlast T)" by (intro prefix_length_le)
  then show False using \<open>T \<noteq> []\<close> by (cases T rule: rev_cases) auto
qed

lemma map_of_present: "(k, e) \<in> set es \<Longrightarrow> map_of es k \<noteq> None"
  by (induction es) auto

lemma wf_entries_filter:
  assumes wf: "wf_entries es"
      and closed: "\<forall>ke\<in>set es. P (fst ke) \<longrightarrow> fst ke = [] \<or> P (butlast (fst ke))"
  shows "wf_entries (filter (\<lambda>ke. P (fst ke)) es)"
proof -
  have "fst ke = [] \<or> node_at (filter (\<lambda>ke. P (fst ke)) es) (butlast (fst ke)) = Some DirE"
    if "ke \<in> set es" and "P (fst ke)" for ke
  proof (cases "fst ke = []")
    case True
    then show ?thesis by simp
  next
    case False
    then have "P (butlast (fst ke))" using closed that by blast
    moreover have "node_at es (butlast (fst ke)) = Some DirE"
      using wf that(1) False by (auto simp add: wf_entries_def list_all_iff)
    ultimately show ?thesis
      using map_of_filter_key [of P es "butlast (fst ke)"]
      by (auto simp add: node_at_def split: if_splits)
  qed
  then show ?thesis by (auto simp add: wf_entries_def list_all_iff)
qed

lemma wf_entries_graft:
  assumes wf: "wf_entries es" and tne: "T \<noteq> []"
      and parent: "node_at es (butlast T) = Some DirE"
      and x1: "\<forall>q. map_of X (T @ q) = None"
      and x2: "\<forall>k. \<not> prefix T k \<longrightarrow> map_of X k = map_of es k"
      and x3: "set X \<subseteq> set es"
  shows "wf_entries ((T, DirE) # subtree_copy es S T @ X)"
proof -
  let ?new = "(T, DirE) # subtree_copy es S T @ X"
  have outside: "node_at ?new k = node_at es k" if "\<not> prefix T k" for k
    using kept_contents [OF that, of es S X] x2 that by (simp add: node_at_def)
  have top: "node_at ?new T = Some DirE"
    using tne by (simp add: node_at_def)
  have par: "node_at ?new (butlast T) = Some DirE"
  proof -
    have "\<not> prefix T (butlast T)"
      using tne by (metis not_below_own_parent append_Nil2)
    then show ?thesis using outside parent by simp
  qed
  have inside: "node_at ?new (T @ q) = node_at es (S @ q)" if "q \<noteq> []" for q
    using copied_contents [OF x1 that, of es S] that by (simp add: node_at_def)
  have copied: "fst ke = [] \<or> node_at ?new (butlast (fst ke)) = Some DirE"
    if mem: "ke \<in> set (subtree_copy es S T)" for ke
  proof -
    obtain k e where "(k, e) \<in> set es" and "prefix S k" and "ke = (T @ drop (length S) k, e)"
      using mem by (auto simp add: subtree_copy_def)
    then obtain q e where src: "(S @ q, e) \<in> set es" and ke: "ke = (T @ q, e)"
      by (auto simp add: prefix_def)
    show ?thesis
    proof (cases "q = []")
      case True
      then show ?thesis using ke par by simp
    next
      case False
      have up: "node_at es (butlast (S @ q)) = Some DirE"
        using wf src False by (auto simp add: wf_entries_def list_all_iff)
      show ?thesis
      proof (cases "butlast q = []")
        case True
        then show ?thesis using ke False top by (simp add: butlast_append)
      next
        case b: False
        then show ?thesis
          using ke False inside [OF b] up by (simp add: butlast_append)
      qed
    qed
  qed
  have old: "fst ke = [] \<or> node_at ?new (butlast (fst ke)) = Some DirE"
    if "ke \<in> set X" for ke
  proof (cases "fst ke = []")
    case True
    then show ?thesis by simp
  next
    case False
    have "map_of X (fst ke) \<noteq> None"
      using that map_of_present [of "fst ke" "snd ke" X] by simp
    then have "\<not> prefix T (fst ke)" using x1 by (auto simp add: prefix_def)
    then have "\<not> prefix T (butlast (fst ke))"
      using prefix_order.trans [OF _ prefixeq_butlast] by blast
    moreover have "node_at es (butlast (fst ke)) = Some DirE"
      using wf that x3 False by (auto simp add: wf_entries_def list_all_iff)
    ultimately show ?thesis using outside by simp
  qed
  show ?thesis
    unfolding wf_entries_def list_all_iff
    using par copied old by auto
qed

lemma removeTarget_posix_wf:
  assumes rf: "resolved_form target" and wf: "wf_entries (entries (world s))"
      and ok: "removeTarget posix target s = (s1, Inr u)"
  shows "wf_entries (entries (world s1))"
proof -
  let ?T = "tl (split_path target)"
  let ?es = "entries (world s)"
  note st = posix_stat_resolved [OF rf wf]
  show ?thesis
  proof (cases "node_at ?es ?T")
    case None
    then have "world s1 = world s"
      using ok st by (auto simp add: removeTarget_def call_defs posix_existsSync_def split: if_splits)
    then show ?thesis using wf by simp
  next
    case (Some e)
    have loc: "locate (world s) target = Some ?T"
      using locate_resolved_present [OF rf wf] Some by simp
    show ?thesis
    proof (cases e)
      case (FileE c)
      then have es1: "entries (world s1) = filter (\<lambda>ke. fst ke \<noteq> ?T) ?es"
        using ok st Some loc
        by (auto simp add: removeTarget_def call_defs posix_existsSync_def posix_unlinkSync_def
              isFile_def isSymbolicLink_def split: if_splits)
      have "fst ke = [] \<or> butlast (fst ke) \<noteq> ?T" if mem: "ke \<in> set ?es" for ke
      proof (rule ccontr)
        assume "\<not> (fst ke = [] \<or> butlast (fst ke) \<noteq> ?T)"
        then have "fst ke = ?T @ [last (fst ke)]"
          by (metis append_butlast_last_id)
        moreover have "map_of ?es (?T @ [last (fst ke)]) = None"
          using wf_file_leaf [OF wf, of ?T c "[last (fst ke)]"] Some FileE by simp
        ultimately show False
          using map_of_present [of "fst ke" "snd ke" ?es] mem by simp
      qed
      then show ?thesis
        using wf_entries_filter [OF wf, of "\<lambda>k. k \<noteq> ?T"] es1 by simp
    next
      case DirE
      then have es1: "entries (world s1) = filter (\<lambda>ke. \<not> prefix ?T (fst ke)) ?es"
        using ok st Some loc posix_rmSync_resolved [OF rf wf]
        by (auto simp add: removeTarget_def call_defs posix_existsSync_def
              isFile_def isSymbolicLink_def split: if_splits)
      have "\<not> prefix ?T (butlast k)" if "\<not> prefix ?T k" for k
        using that prefix_order.trans [OF _ prefixeq_butlast] by blast
      then show ?thesis
        using wf_entries_filter [OF wf, of "\<lambda>k. \<not> prefix ?T k"] es1 by simp
    qed
  qed
qed

lemma copyWithNodeFs_posix:
  assumes wf: "wf_entries (entries (world s))"
      and rf: "resolved_form target"
      and apart1: "\<not> prefix (lexical (world s) source) (tl (split_path target))"
      and apart2: "\<not> prefix (tl (split_path target)) (lexical (world s) source)"
      and sd: "node_at (entries (world s)) (lexical (world s) source) = Some DirE"
      and ok: "copyWithNodeFs posix source target s = (s', Inr u)"
  shows "q \<noteq> [] \<Longrightarrow> map_of (entries (world s')) (tl (split_path target) @ q)
                      = map_of (entries (world s)) (lexical (world s) source @ q)"
    and "map_of (entries (world s')) (lexical (world s) source @ q)
           = map_of (entries (world s)) (lexical (world s) source @ q)"
    and "node_at (entries (world s')) (tl (split_path target)) = Some DirE"
    and "wf_entries (entries (world s'))"
    and "cwd (world s') = cwd (world s)"
proof -
  let ?T = "tl (split_path target)"
  let ?S = "lexical (world s) source"
  have tne: "?T \<noteq> []" by (rule resolved_form_split(2) [OF rf])
  obtain s1 u1 where A: "removeTarget posix target s = (s1, Inr u1)"
    using ok by (auto simp add: copyWithNodeFs_def split: prod.splits sum.splits)
  obtain s2 u2 where B: "fs_mkdirSync posix (posix_dirname target) s1 = (s2, Inr u2)"
    using ok A by (auto simp add: copyWithNodeFs_def split: prod.splits sum.splits)
  have C: "fs_cpSync posix source target s2 = (s', Inr u)"
    using ok A B by (auto simp add: copyWithNodeFs_def split: prod.splits sum.splits)
  note a = removeTarget_posix [OF rf wf A]
  note b = mkdir_parent_posix [OF rf B]
  have cwd2: "cwd (world s2) = cwd (world s)" using a(3) b(3) by simp
  have lex2: "lexical (world s2) source = ?S" by (rule lexical_cong [OF cwd2])
  have absent2: "\<forall>q. map_of (entries (world s2)) (?T @ q) = None"
  proof
    fix q
    have "map_of (entries (world s2)) (?T @ q) = map_of (entries (world s1)) (?T @ q)"
      using b(1) [of "?T @ q"] not_below_own_parent [OF tne, of q] by blast
    then show "map_of (entries (world s2)) (?T @ q) = None" using a(1) by simp
  qed
  have src2: "map_of (entries (world s2)) (?S @ q) = map_of (entries (world s)) (?S @ q)" for q
  proof -
    have "map_of (entries (world s2)) (?S @ q) = map_of (entries (world s1)) (?S @ q)"
      using b(1) [of "?S @ q"] below_parent_unchanged [OF apart1, of q] by blast
    moreover have "map_of (entries (world s1)) (?S @ q) = map_of (entries (world s)) (?S @ q)"
      using a(2) [of "?S @ q"] disjoint_paths(1) [OF apart1 apart2, of q] by simp
    ultimately show ?thesis by simp
  qed
  have sd2: "node_at (entries (world s2)) (lexical (world s2) source) = Some DirE"
    using sd src2 [of "[]"] lex2 by (auto simp add: node_at_def split: if_splits)
  have parents2: "\<forall>i<length ?T. node_at (entries (world s2)) (take i ?T) = Some DirE"
    using b(2) by blast
  have apart1': "\<not> prefix (lexical (world s2) source) ?T" using apart1 lex2 by simp
  note c = cp_posix [OF rf absent2 parents2 sd2 apart1' C]
  have es': "entries (world s')
      = (?T, DirE) # subtree_copy (entries (world s2)) ?S ?T @ entries (world s2)"
    using c(1) lex2 by simp
  show "map_of (entries (world s')) (?T @ q) = map_of (entries (world s)) (?S @ q)" if "q \<noteq> []"
    using copied_contents [OF absent2 that, of "entries (world s2)" ?S] es' src2 by simp
  show "map_of (entries (world s')) (?S @ q) = map_of (entries (world s)) (?S @ q)"
    using kept_contents [OF disjoint_paths(1) [OF apart1 apart2, of q]] es' src2 by simp
  show "node_at (entries (world s')) ?T = Some DirE"
    using es' tne by (simp add: node_at_def)
  have wf2: "wf_entries (entries (world s2))"
    by (rule b(6) [OF removeTarget_posix_wf [OF rf wf A]])
  have parent2: "node_at (entries (world s2)) (butlast ?T) = Some DirE"
    by (rule prefix_positions_butlast [OF tne parents2])
  show "wf_entries (entries (world s'))"
    unfolding es'
    by (rule wf_entries_graft [OF wf2 tne parent2 absent2]) simp_all
  show "cwd (world s') = cwd (world s)"
    using c(2) cwd2 by simp
qed

lemma copyWithRsync_posix:
  assumes rf: "resolved_form target" and srcne: "source \<noteq> []"
      and apart1: "\<not> prefix (lexical (world s) source) (tl (split_path target))"
      and apart2: "\<not> prefix (tl (split_path target)) (lexical (world s) source)"
      and ok: "copyWithRsync posix source target s = (s', Inr u)"
  shows "q \<noteq> [] \<Longrightarrow> map_of (entries (world s')) (tl (split_path target) @ q)
                      = map_of (entries (world s)) (lexical (world s) source @ q)"
    and "map_of (entries (world s')) (lexical (world s) source @ q)
           = map_of (entries (world s)) (lexical (world s) source @ q)"
    and "node_at (entries (world s')) (tl (split_path target)) = Some DirE"
    and "wf_entries (entries (world s)) \<Longrightarrow> wf_entries (entries (world s'))"
    and "cwd (world s') = cwd (world s)"
proof -
  let ?T = "tl (split_path target)"
  let ?S = "lexical (world s) source"
  have tne: "?T \<noteq> []" by (rule resolved_form_split(2) [OF rf])
  obtain s1 u1 where B: "fs_mkdirSync posix (posix_dirname target) s = (s1, Inr u1)"
    using ok by (auto simp add: copyWithRsync_def split: prod.splits sum.splits)
  obtain out where R: "shell_rsync posix (source @ ''/'') (target @ ''/'') s1 = (s', Inr out)"
    and exit: "exitCode out = 0"
    using ok B by (auto simp add: copyWithRsync_def split: prod.splits sum.splits if_splits)
  note b = mkdir_parent_posix [OF rf B]
  have run: "posix_rsync (world s1) (source @ ''/'') (target @ ''/'') = (world s', Inr out)"
    using R by (auto simp add: shell_rsync_def record_event_def split: prod.splits)
  obtain w0 where w0: "entries w0 = entries (world s1)" "cwd w0 = cwd (world s1)"
    and m: "rsync_mirror w0 (source @ ''/'') (target @ ''/'') = (world s', Inr out)"
    using posix_rsync_cases [OF run] exit by auto
  have lex0: "lexical w0 source = ?S"
    using lexical_cong [of w0 "world s" source] w0(2) b(3) by simp
  have apart0: "\<not> prefix (lexical w0 source) ?T" using apart1 lex0 by simp
  note r = rsync_mirror_posix [OF rf srcne apart0 m exit]
  have es': "entries (world s')
      = (?T, DirE) # subtree_copy (entries (world s1)) ?S ?T
        @ filter (\<lambda>ke. \<not> prefix ?T (fst ke)) (entries (world s1))"
    using r(1) lex0 w0(1) by simp
  have src1: "map_of (entries (world s1)) (?S @ q) = map_of (entries (world s)) (?S @ q)" for q
    using b(1) [of "?S @ q"] below_parent_unchanged [OF apart1, of q] by blast
  have gone: "\<forall>q. map_of (filter (\<lambda>ke. \<not> prefix ?T (fst ke)) (entries (world s1))) (?T @ q) = None"
    by (simp add: map_of_filter_outside)
  show "map_of (entries (world s')) (?T @ q) = map_of (entries (world s)) (?S @ q)" if "q \<noteq> []"
    using copied_contents [OF gone that, of "entries (world s1)" ?S] es' src1 by simp
  show "map_of (entries (world s')) (?S @ q) = map_of (entries (world s)) (?S @ q)"
    using kept_contents [OF disjoint_paths(1) [OF apart1 apart2, of q]] es' src1
      disjoint_paths(1) [OF apart1 apart2, of q]
    by (simp add: map_of_filter_outside)
  show "node_at (entries (world s')) ?T = Some DirE"
    using es' tne by (simp add: node_at_def)
  show "wf_entries (entries (world s'))" if wf: "wf_entries (entries (world s))"
  proof -
    have wf1: "wf_entries (entries (world s1))" by (rule b(6) [OF wf])
    have parents1: "\<forall>i<length ?T. node_at (entries (world s1)) (take i ?T) = Some DirE"
      using b(2) by blast
    have parent1: "node_at (entries (world s1)) (butlast ?T) = Some DirE"
      by (rule prefix_positions_butlast [OF tne parents1])
    show ?thesis
      unfolding es'
      by (rule wf_entries_graft [OF wf1 tne parent1 gone]) (simp_all add: map_of_filter_outside)
  qed
  show "cwd (world s') = cwd (world s)"
    using r(2) w0(2) b(3) by simp
qed

lemma copyWithRsync_posix_failed:
  assumes rf: "resolved_form target"
      and ok: "copyWithRsync posix source target s = (s', Inl err)"
  shows "map_of (entries (world s')) k \<noteq> map_of (entries (world s)) k \<Longrightarrow>
           map_of (entries (world s)) k = None \<and> prefix k (butlast (tl (split_path target)))"
    and "cwd (world s') = cwd (world s)"
    and "wf_entries (entries (world s)) \<Longrightarrow> wf_entries (entries (world s'))"
proof -
  obtain s1 r1 where B: "fs_mkdirSync posix (posix_dirname target) s = (s1, r1)"
    by (cases "fs_mkdirSync posix (posix_dirname target) s")
  note b = mkdir_parent_posix [OF rf B]
  have same: "entries (world s') = entries (world s1) \<and> cwd (world s') = cwd (world s1)"
  proof (cases r1)
    case (Inl e)
    then show ?thesis using ok B by (simp add: copyWithRsync_def)
  next
    case (Inr u1)
    obtain w' r where run: "posix_rsync (world s1) (source @ ''/'') (target @ ''/'') = (w', r)"
      by (cases "posix_rsync (world s1) (source @ ''/'') (target @ ''/'')")
    then have s': "world s' = w'" and "\<not> (\<exists>out. r = Inr out \<and> exitCode out = 0)"
      using ok B Inr
      by (auto simp add: copyWithRsync_def shell_rsync_def record_event_def split: sum.splits if_splits)
    then show ?thesis using posix_rsync_cases [OF run] by auto
  qed
  show "map_of (entries (world s)) k = None \<and> prefix k (butlast (tl (split_path target)))"
    if "map_of (entries (world s')) k \<noteq> map_of (entries (world s)) k"
    using b(1) [of k] that same by simp
  show "cwd (world s') = cwd (world s)" using b(3) same by simp
  show "wf_entries (entries (world s'))" if "wf_entries (entries (world s))"
    using b(6) [OF that] same by simp
qed

lemma detectRsync_world: "world (fst (detectRsync P s)) = world s"
  by (simp add: detectRsync_def shell_which_rsync_def record_event_def
        split: option.splits prod.splits sum.splits)

lemma validatePaths_posix_accepts:
  assumes "validatePaths posix source target s = (s1, Inr u)"
  shows "posix_statSync (world s) source = Inr StatsDirectory" and "world s1 = world s"
proof -
  show "posix_statSync (world s) source = Inr StatsDirectory"
    using assms
    by (auto simp add: validatePaths_def fs_statSync_def isDirectory_def Let_def
          split: sum.splits if_splits)
  show "world s1 = world s"
    using validatePaths_state [of posix source target s] assms by (simp add: record_event_def)
qed

lemma posix_stat_directory:
  assumes "posix_statSync w source = Inr StatsDirectory"
  shows "source \<noteq> []" and "node_at (entries w) (lexical w source) = Some DirE"
proof -
  obtain S where l: "locate w source = Some S" and n: "node_at (entries w) S = Some DirE"
    using assms
    by (auto simp add: posix_statSync_def split: option.splits entry.splits)
  show "source \<noteq> []" using l by (auto simp add: locate_def)
  show "node_at (entries w) (lexical w source) = Some DirE"
    using locate_lexical [OF l] n by simp
qed

lemma runFallback_posix:
  assumes wf: "wf_entries (entries (world s))"
      and rf: "resolved_form target"
      and apart1: "\<not> prefix (lexical (world s) source) (tl (split_path target))"
      and apart2: "\<not> prefix (tl (split_path target)) (lexical (world s) source)"
      and sd: "node_at (entries (world s)) (lexical (world s) source) = Some DirE"
      and ok: "runFallback posix source target s = (s', Inr r)"
  shows "q \<noteq> [] \<Longrightarrow> map_of (entries (world s')) (tl (split_path target) @ q)
                      = map_of (entries (world s)) (lexical (world s) source @ q)"
    and "map_of (entries (world s')) (lexical (world s) source @ q)
           = map_of (entries (world s)) (lexical (world s) source @ q)"
    and "node_at (entries (world s')) (tl (split_path target)) = Some DirE"
    and "wf_entries (entries (world s'))"
    and "cwd (world s') = cwd (world s)"
proof -
  obtain s3 u where c: "copyWithNodeFs posix source target s = (s3, Inr u)"
    and w: "world s' = world s3"
    using ok by (auto simp add: runFallback_def call_defs split: prod.splits sum.splits)
  note f = copyWithNodeFs_posix [OF wf rf apart1 apart2 sd c]
  show "map_of (entries (world s')) (tl (split_path target) @ q)
          = map_of (entries (world s)) (lexical (world s) source @ q)" if "q \<noteq> []"
    using f(1) [OF that] w by simp
  show "map_of (entries (world s')) (lexical (world s) source @ q)
           = map_of (entries (world s)) (lexical (world s) source @ q)"
    using f(2) w by simp
  show "node_at (entries (world s')) (tl (split_path target)) = Some DirE"
    using f(3) w by simp
  show "wf_entries (entries (world s'))" and "cwd (world s') = cwd (world s)"
    using f(4,5) w by simp_all
qed

lemma syncDirectory_posix_entries:
  assumes wf: "wf_entries (entries (world s))"
      and rf: "resolved_form target"
      and apart1: "\<not> prefix (lexical (world s) source) (tl (split_path target))"
      and apart2: "\<not> prefix (tl (split_path target)) (lexical (world s) source)"
      and ok: "syncDirectory posix source target s = (s', Inr r)"
  shows "q \<noteq> [] \<Longrightarrow> map_of (entries (world s')) (tl (split_path target) @ q)
                      = map_of (entries (world s)) (lexical (world s) source @ q)"
    and "map_of (entries (world s')) (lexical (world s) source @ q)
           = map_of (entries (world s)) (lexical (world s) source @ q)"
    and "node_at (entries (world s')) (tl (split_path target)) = Some DirE"
    and "wf_entries (entries (world s'))"
    and "cwd (world s') = cwd (world s)"
proof -
  let ?T = "tl (split_path target)"
  let ?S = "lexical (world s) source"
  obtain s1 u where v: "validatePaths posix source target s = (s1, Inr u)"
    and rs: "runStrategies posix source target s1 = (s', Inr r)"
    using ok by (auto simp add: syncDirectory_def split: prod.splits sum.splits)
  note acc = validatePaths_posix_accepts [OF v]
  note src = posix_stat_directory [OF acc(1)]
  obtain s2 b where d: "detectRsync posix s1 = (s2, b)"
    by (cases "detectRsync posix s1")
  have w2: "world s2 = world s"
    using detectRsync_world [of posix s1] d acc(2) by simp
  have facts2: "wf_entries (entries (world s2))"
    "\<not> prefix (lexical (world s2) source) ?T" "\<not> prefix ?T (lexical (world s2) source)"
    "node_at (entries (world s2)) (lexical (world s2) source) = Some DirE"
    using wf apart1 apart2 src(2) w2 by simp_all
  have goal: "(\<forall>q. q \<noteq> [] \<longrightarrow> map_of (entries (world s')) (?T @ q) = map_of (entries (world s)) (?S @ q))
      \<and> (\<forall>q. map_of (entries (world s')) (?S @ q) = map_of (entries (world s)) (?S @ q))
      \<and> node_at (entries (world s')) ?T = Some DirE
      \<and> wf_entries (entries (world s')) \<and> cwd (world s') = cwd (world s)"
  proof (cases b)
    case False
    then have f: "runFallback posix source target s2 = (s', Inr r)"
      using rs d by (simp add: runStrategies_def)
    show ?thesis
      using runFallback_posix [OF facts2(1) rf facts2(2,3,4) f] w2 by simp
  next
    case True
    obtain s3 r3 where c: "copyWithRsync posix source target s2 = (s3, r3)"
      by (cases "copyWithRsync posix source target s2")
    show ?thesis
    proof (cases r3)
      case (Inr u3)
      then have w': "world s' = world s3"
        using rs d True c by (auto simp add: runStrategies_def call_defs)
      show ?thesis
        using copyWithRsync_posix [OF rf src(1) facts2(2,3) c [unfolded Inr]] facts2(1) w' w2
        by simp
    next
      case (Inl err)
      let ?sf = "logError (''rsync failed, falling back to fs: '' @ errorMessage err) s3"
      have f: "runFallback posix source target ?sf = (s', Inr r)"
        using rs d True c Inl by (simp add: runStrategies_def)
      note g = copyWithRsync_posix_failed [OF rf c [unfolded Inl]]
      have wsf: "world ?sf = world s3" by (simp add: call_defs)
      have cwd3: "cwd (world s3) = cwd (world s)" using g(2) w2 by simp
      have lex3: "lexical (world ?sf) source = ?S"
        using lexical_cong [OF cwd3, of source] wsf by simp
      have src3: "map_of (entries (world s3)) (?S @ q) = map_of (entries (world s)) (?S @ q)" for q
        using g(1) [of "?S @ q"] below_parent_unchanged [OF apart1, of q] w2 by auto
      have sd3: "node_at (entries (world ?sf)) (lexical (world ?sf) source) = Some DirE"
        using src(2) src3 [of "[]"] lex3 wsf by (auto simp add: node_at_def split: if_splits)
      have wf3: "wf_entries (entries (world ?sf))"
        using g(3) facts2(1) wsf by simp
      have a1: "\<not> prefix (lexical (world ?sf) source) ?T" using apart1 lex3 by simp
      have a2: "\<not> prefix ?T (lexical (world ?sf) source)" using apart2 lex3 by simp
      note h = runFallback_posix [OF wf3 rf a1 a2 sd3 f]
      show ?thesis
        using h lex3 wsf src3 cwd3 by simp
    qed
  qed
  show "map_of (entries (world s')) (?T @ q) = map_of (entries (world s)) (?S @ q)" if "q \<noteq> []"
    using goal that by blast
  show "map_of (entries (world s')) (?S @ q) = map_of (entries (world s)) (?S @ q)"
    using goal by blast
  show "node_at (entries (world s')) ?T = Some DirE"
    using goal by blast
  show "wf_entries (entries (world s'))" and "cwd (world s') = cwd (world s)"
    using goal by blast+
qed

text \<open>
  The mirror. On the POSIX platform with a well-formed file system, for a target spelled
  in resolved form that does not overlap the source (neither resolved path is at or
  below the other): after a call that returns, whichever strategy made the copy and
  whether or not the tool failed first, target is a directory holding exactly what
  source held before the call, and source still holds the same.
\<close>

theorem mirror_for_resolved_target:
  assumes "wf_entries (entries (world s))"
      and "resolved_form target"
      and "\<not> prefix (lexical (world s) source) (lexical (world s) target)"
      and "\<not> prefix (lexical (world s) target) (lexical (world s) source)"
      and "syncDirectory posix source target s = (s', Inr r)"
  shows "contents (world s') (lexical (world s) target)
           = contents (world s) (lexical (world s) source)
       \<and> contents (world s') (lexical (world s) source)
           = contents (world s) (lexical (world s) source)
       \<and> node_at (entries (world s')) (lexical (world s) target) = Some DirE"
proof -
  have lt: "lexical (world s) target = tl (split_path target)"
    by (rule resolved_form_lexical [OF assms(2)])
  note e = syncDirectory_posix_entries [OF assms(1,2) assms(3,4) [unfolded lt] assms(5)]
  have "contents (world s') (tl (split_path target)) q
          = contents (world s) (lexical (world s) source) q" for q
    using e(1) [of q] by (simp add: contents_def node_at_def)
  moreover have "contents (world s') (lexical (world s) source) q
          = contents (world s) (lexical (world s) source) q" for q
    using e(2) [of q] by (simp add: contents_def node_at_def)
  ultimately show ?thesis
    using e(3) lt by (simp add: fun_eq_iff)
qed

text \<open>
  The spec's scenario: \<open>/tmp/a\<close> holds \<open>f.txt\<close>, \<open>/tmp/b\<close> holds \<open>g.txt\<close>, the tool is
  forced unavailable. After the call \<open>/tmp/b\<close> holds what \<open>/tmp/a\<close> holds, \<open>g.txt\<close> is
  gone, and the outcome is \<open>fs\<close>.
\<close>

theorem mirror_for_resolved_target_witness:
  "wf_entries (entries (world (setRsyncAvailable (Some False) (initial_state demo_world))))
   \<and> resolved_form ''/tmp/b''
   \<and> \<not> prefix (lexical demo_world ''/tmp/a'') (lexical demo_world ''/tmp/b'')
   \<and> \<not> prefix (lexical demo_world ''/tmp/b'') (lexical demo_world ''/tmp/a'')
   \<and> snd (syncDirectory posix ''/tmp/a'' ''/tmp/b''
        (setRsyncAvailable (Some False) (initial_state demo_world))) = Inr \<lparr>method' = Fs\<rparr>
   \<and> contents (world (fst (syncDirectory posix ''/tmp/a'' ''/tmp/b''
        (setRsyncAvailable (Some False) (initial_state demo_world))))) [''tmp'', ''b'']
       = contents demo_world [''tmp'', ''a'']
   \<and> contents demo_world [''tmp'', ''a''] [''f.txt''] = Some (FileE ''x'')
   \<and> contents demo_world [''tmp'', ''a''] [''g.txt''] = None"
proof -
  define s0 where "s0 = setRsyncAvailable (Some False) (initial_state demo_world)"
  define s1 where "s1 = fst (syncDirectory posix ''/tmp/a'' ''/tmp/b'' s0)"
  have w0: "world s0 = demo_world"
    by (simp add: s0_def setRsyncAvailable_def initial_state_def)
  have wf: "wf_entries (entries (world s0))"
    unfolding s0_def by code_simp
  have rf: "resolved_form ''/tmp/b''"
    by code_simp
  have a1: "\<not> prefix (lexical (world s0) ''/tmp/a'') (lexical (world s0) ''/tmp/b'')"
    unfolding s0_def by code_simp
  have a2: "\<not> prefix (lexical (world s0) ''/tmp/b'') (lexical (world s0) ''/tmp/a'')"
    unfolding s0_def by code_simp
  have r: "snd (syncDirectory posix ''/tmp/a'' ''/tmp/b'' s0) = Inr \<lparr>method' = Fs\<rparr>"
    unfolding s0_def by code_simp
  have ok: "syncDirectory posix ''/tmp/a'' ''/tmp/b'' s0 = (s1, Inr \<lparr>method' = Fs\<rparr>)"
    using r by (simp add: s1_def prod_eq_iff)
  have la: "lexical demo_world ''/tmp/a'' = [''tmp'', ''a'']"
    by code_simp
  have lb: "lexical demo_world ''/tmp/b'' = [''tmp'', ''b'']"
    by code_simp
  have f: "contents demo_world [''tmp'', ''a''] [''f.txt''] = Some (FileE ''x'')"
    by code_simp
  have g: "contents demo_world [''tmp'', ''a''] [''g.txt''] = None"
    by code_simp
  note fact = mirror_for_resolved_target [OF wf rf a1 a2 ok]
  have "contents (world s1) [''tmp'', ''b''] = contents demo_world [''tmp'', ''a'']"
    using fact [THEN conjunct1] w0 la lb by simp
  then show ?thesis
    using wf rf a1 a2 r f g w0 by (simp add: s1_def s0_def)
qed

text \<open>
  Under the same conditions a second call in succession leaves target as the first
  call left it, and the first call left source as it was.
\<close>

theorem second_sync_leaves_target:
  assumes "wf_entries (entries (world s))"
      and "resolved_form target"
      and "\<not> prefix (lexical (world s) source) (lexical (world s) target)"
      and "\<not> prefix (lexical (world s) target) (lexical (world s) source)"
      and "syncDirectory posix source target s = (s1, Inr r1)"
      and "syncDirectory posix source target s1 = (s2, Inr r2)"
  shows "contents (world s2) (lexical (world s) target)
           = contents (world s1) (lexical (world s) target)
       \<and> contents (world s1) (lexical (world s) source)
           = contents (world s) (lexical (world s) source)"
proof -
  have lt: "lexical (world s) target = tl (split_path target)"
    by (rule resolved_form_lexical [OF assms(2)])
  note first = syncDirectory_posix_entries [OF assms(1,2) assms(3,4) [unfolded lt] assms(5)]
  have same: "lexical (world s1) p = lexical (world s) p" for p
    by (rule lexical_cong [OF first(5)])
  note once = mirror_for_resolved_target [OF assms(1-5)]
  have apart': "\<not> prefix (lexical (world s1) source) (lexical (world s1) target)"
    "\<not> prefix (lexical (world s1) target) (lexical (world s1) source)"
    using assms(3,4) same by simp_all
  note again = mirror_for_resolved_target [OF first(4) assms(2) apart' assms(6)]
  show ?thesis
    using once again same by simp
qed

theorem second_sync_leaves_target_witness:
  "wf_entries (entries (world (setRsyncAvailable (Some False) (initial_state demo_world))))
   \<and> resolved_form ''/tmp/b''
   \<and> \<not> prefix (lexical demo_world ''/tmp/a'') (lexical demo_world ''/tmp/b'')
   \<and> \<not> prefix (lexical demo_world ''/tmp/b'') (lexical demo_world ''/tmp/a'')
   \<and> snd (syncDirectory posix ''/tmp/a'' ''/tmp/b''
        (setRsyncAvailable (Some False) (initial_state demo_world))) = Inr \<lparr>method' = Fs\<rparr>
   \<and> snd (syncDirectory posix ''/tmp/a'' ''/tmp/b''
        (fst (syncDirectory posix ''/tmp/a'' ''/tmp/b''
           (setRsyncAvailable (Some False) (initial_state demo_world))))) = Inr \<lparr>method' = Fs\<rparr>
   \<and> contents (world (fst (syncDirectory posix ''/tmp/a'' ''/tmp/b''
        (fst (syncDirectory posix ''/tmp/a'' ''/tmp/b''
           (setRsyncAvailable (Some False) (initial_state demo_world))))))) [''tmp'', ''b'']
       = contents (world (fst (syncDirectory posix ''/tmp/a'' ''/tmp/b''
           (setRsyncAvailable (Some False) (initial_state demo_world))))) [''tmp'', ''b'']"
proof -
  define s0 where "s0 = setRsyncAvailable (Some False) (initial_state demo_world)"
  define s1 where "s1 = fst (syncDirectory posix ''/tmp/a'' ''/tmp/b'' s0)"
  define s2 where "s2 = fst (syncDirectory posix ''/tmp/a'' ''/tmp/b'' s1)"
  have w0: "world s0 = demo_world"
    by (simp add: s0_def setRsyncAvailable_def initial_state_def)
  have wf: "wf_entries (entries (world s0))"
    unfolding s0_def by code_simp
  have rf: "resolved_form ''/tmp/b''"
    by code_simp
  have a1: "\<not> prefix (lexical (world s0) ''/tmp/a'') (lexical (world s0) ''/tmp/b'')"
    unfolding s0_def by code_simp
  have a2: "\<not> prefix (lexical (world s0) ''/tmp/b'') (lexical (world s0) ''/tmp/a'')"
    unfolding s0_def by code_simp
  have r1: "snd (syncDirectory posix ''/tmp/a'' ''/tmp/b'' s0) = Inr \<lparr>method' = Fs\<rparr>"
    unfolding s0_def by code_simp
  have r2: "snd (syncDirectory posix ''/tmp/a'' ''/tmp/b'' s1) = Inr \<lparr>method' = Fs\<rparr>"
    unfolding s1_def s0_def by code_simp
  have ok1: "syncDirectory posix ''/tmp/a'' ''/tmp/b'' s0 = (s1, Inr \<lparr>method' = Fs\<rparr>)"
    using r1 by (simp add: s1_def prod_eq_iff)
  have ok2: "syncDirectory posix ''/tmp/a'' ''/tmp/b'' s1 = (s2, Inr \<lparr>method' = Fs\<rparr>)"
    using r2 by (simp add: s2_def prod_eq_iff)
  have lb: "lexical demo_world ''/tmp/b'' = [''tmp'', ''b'']"
    by code_simp
  note fact = second_sync_leaves_target [OF wf rf a1 a2 ok1 ok2]
  have "contents (world s2) [''tmp'', ''b''] = contents (world s1) [''tmp'', ''b'']"
    using fact [THEN conjunct1] w0 lb by simp
  then show ?thesis
    using wf rf a1 a2 r1 r2 w0 by (simp add: s2_def s1_def s0_def)
qed

subsection \<open>Targets that are not spelled in resolved form\<close>

text \<open>
  Claim C1 says that after a successful call the target holds exactly what the source
  holds. The fallback does not keep to it when the last component of target is \<open>..\<close>,
  or when target walks through a directory that does not exist yet.

  With \<open>/tmp/c\<close> missing and target \<open>/tmp/c/d/..\<close>: \<open>existsSync(target)\<close> is false,
  so nothing is removed; \<open>mkdirSync(path.dirname(target))\<close> makes \<open>/tmp/c\<close> and
  \<open>/tmp/c/d\<close>; \<open>cpSync\<close> then copies into the directory \<open>/tmp/c\<close>, which is there by
  now, and \<open>d\<close> stays in it. The tool, on the same input, deletes \<open>d\<close>.

  With \<open>/tmp/x\<close> missing, \<open>/tmp/b\<close> holding \<open>g.txt\<close> and target \<open>/tmp/x/../b\<close>:
  \<open>existsSync(target)\<close> is false again, \<open>mkdirSync\<close> makes \<open>/tmp/x\<close>, and \<open>cpSync\<close>
  merges the source into \<open>/tmp/b\<close>: \<open>g.txt\<close> survives.
\<close>

theorem fallback_merges_into_respelled_target:
  "statSync posix demo_world ''/tmp/a'' = Inr StatsDirectory
   \<and> lexical demo_world ''/tmp/a'' = [''tmp'', ''a'']
   \<and> lexical demo_world ''/tmp/c/d/..'' = [''tmp'', ''c'']
   \<and> snd (syncDirectory posix ''/tmp/a'' ''/tmp/c/d/..''
        (setRsyncAvailable (Some False) (initial_state demo_world))) = Inr \<lparr>method' = Fs\<rparr>
   \<and> contents (world (fst (syncDirectory posix ''/tmp/a'' ''/tmp/c/d/..''
        (setRsyncAvailable (Some False) (initial_state demo_world))))) [''tmp'', ''c''] [''d'']
       = Some DirE
   \<and> contents (world (fst (syncDirectory posix ''/tmp/a'' ''/tmp/c/d/..''
        (setRsyncAvailable (Some False) (initial_state demo_world))))) [''tmp'', ''a''] [''d'']
       = None
   \<and> snd (syncDirectory posix ''/tmp/a'' ''/tmp/c/d/..''
        (setRsyncAvailable (Some True) (initial_state demo_world))) = Inr \<lparr>method' = Rsync\<rparr>
   \<and> contents (world (fst (syncDirectory posix ''/tmp/a'' ''/tmp/c/d/..''
        (setRsyncAvailable (Some True) (initial_state demo_world))))) [''tmp'', ''c''] [''d'']
       = None
   \<and> lexical demo_world ''/tmp/x/../b'' = [''tmp'', ''b'']
   \<and> snd (syncDirectory posix ''/tmp/a'' ''/tmp/x/../b''
        (setRsyncAvailable (Some False) (initial_state demo_world))) = Inr \<lparr>method' = Fs\<rparr>
   \<and> contents (world (fst (syncDirectory posix ''/tmp/a'' ''/tmp/x/../b''
        (setRsyncAvailable (Some False) (initial_state demo_world))))) [''tmp'', ''b''] [''g.txt'']
       = Some (FileE ''y'')
   \<and> contents (world (fst (syncDirectory posix ''/tmp/a'' ''/tmp/x/../b''
        (setRsyncAvailable (Some False) (initial_state demo_world))))) [''tmp'', ''a''] [''g.txt'']
       = None"
  by code_simp

text \<open>
  Claim C9 says that a second call in succession, the source unchanged, leaves target
  as the first call left it. With the tool unavailable, \<open>/tmp/x\<close> missing and target
  \<open>/tmp/x/../b\<close>, the first call merges the source into \<open>/tmp/b\<close> and makes \<open>/tmp/x\<close>
  on the way; the second call now finds target, removes it and copies afresh, so
  \<open>g.txt\<close> is there after one call and gone after two. With the tool available and
  target \<open>/tmp/c/d/..\<close>, a first call through the tool leaves no \<open>d\<close> in \<open>/tmp/c\<close>; a
  second call in which the tool fails goes through the fallback and leaves \<open>d\<close> there.
\<close>

theorem second_call_changes_target:
  "snd (syncDirectory posix ''/tmp/a'' ''/tmp/x/../b''
        (setRsyncAvailable (Some False) (initial_state demo_world))) = Inr \<lparr>method' = Fs\<rparr>
   \<and> snd (syncDirectory posix ''/tmp/a'' ''/tmp/x/../b''
        (fst (syncDirectory posix ''/tmp/a'' ''/tmp/x/../b''
           (setRsyncAvailable (Some False) (initial_state demo_world))))) = Inr \<lparr>method' = Fs\<rparr>
   \<and> filter (\<lambda>ke. prefix [''tmp'', ''a''] (fst ke))
        (entries (world (fst (syncDirectory posix ''/tmp/a'' ''/tmp/x/../b''
           (setRsyncAvailable (Some False) (initial_state demo_world))))))
       = filter (\<lambda>ke. prefix [''tmp'', ''a''] (fst ke)) (entries demo_world)
   \<and> contents (world (fst (syncDirectory posix ''/tmp/a'' ''/tmp/x/../b''
        (setRsyncAvailable (Some False) (initial_state demo_world))))) [''tmp'', ''b''] [''g.txt'']
       = Some (FileE ''y'')
   \<and> contents (world (fst (syncDirectory posix ''/tmp/a'' ''/tmp/x/../b''
        (fst (syncDirectory posix ''/tmp/a'' ''/tmp/x/../b''
           (setRsyncAvailable (Some False) (initial_state demo_world))))))) [''tmp'', ''b''] [''g.txt'']
       = None
   \<and> snd (syncDirectory posix ''/tmp/a'' ''/tmp/c/d/..''
        (setRsyncAvailable (Some True) (initial_state twice_world))) = Inr \<lparr>method' = Rsync\<rparr>
   \<and> snd (syncDirectory posix ''/tmp/a'' ''/tmp/c/d/..''
        (fst (syncDirectory posix ''/tmp/a'' ''/tmp/c/d/..''
           (setRsyncAvailable (Some True) (initial_state twice_world))))) = Inr \<lparr>method' = Fs\<rparr>
   \<and> contents (world (fst (syncDirectory posix ''/tmp/a'' ''/tmp/c/d/..''
        (setRsyncAvailable (Some True) (initial_state twice_world))))) [''tmp'', ''c''] [''d'']
       = None
   \<and> contents (world (fst (syncDirectory posix ''/tmp/a'' ''/tmp/c/d/..''
        (fst (syncDirectory posix ''/tmp/a'' ''/tmp/c/d/..''
           (setRsyncAvailable (Some True) (initial_state twice_world))))))) [''tmp'', ''c''] [''d'']
       = Some DirE"
  by code_simp

end
